theory Spec2Isabelle
  imports Main
begin

section \<open>The asset packager of convoy (lib/asset\_packager.js)\<close>

text \<open>
  The packager is callback-driven JavaScript on a single thread. A function of the source
  that takes a \<open>done\<close> callback becomes a function that returns the new state of the
  packager together with an \<open>outcome\<close>: what, if anything, reached the callback. Where the
  source runs its steps one after the other (a series, a waterfall), each step is run to
  its completion before the next. Where callers can overlap (several requests for source
  assets in flight at once, as under \<open>ASYNC.map\<close>), a request is split into its start and
  its completion, and the completions come in the order of their times.
\<close>

subsection \<open>Values, errors and outcomes\<close>

type_synonym path = string

text \<open>JavaScript error objects: \<open>new Error(msg)\<close> and the runtime's \<open>TypeError\<close>.\<close>

datatype error = Error string | TypeError string

text \<open>
  \<open>Done v\<close> is \<open>done(null, v)\<close>; \<open>Failed e None\<close> is \<open>done(e)\<close> and \<open>Failed e (Some v)\<close> is
  \<open>done(e, v)\<close>. \<open>Thrown e\<close> is an exception that nothing catches: the callback is not
  called (and Node ends the process unless a handler is installed). \<open>NoCallback\<close> is a call
  whose callback is not called.
\<close>

datatype 'a outcome = Done 'a | Failed error "'a option" | Thrown error | NoCallback

text \<open>The arguments a caller may pass where the source tests truthiness and \<open>typeof\<close>.\<close>

datatype jsval = JUndefined | JNull | JString string | JFunction nat

fun truthy :: "jsval \<Rightarrow> bool" where
  "truthy JUndefined = False"
| "truthy JNull = False"
| "truthy (JString s) = (s \<noteq> [])"
| "truthy (JFunction k) = True"

fun is_function :: "jsval \<Rightarrow> bool" where
  "is_function (JFunction k) = True"
| "is_function v = False"

subsection \<open>Assets\<close>

text \<open>
  A source asset is the object literal \<open>{path: assetPath, dependencies: []}\<close> of
  \<open>getSourceAsset\<close>; \<open>body\<close> is absent (\<open>None\<close>) until a compiler sets it.
\<close>

record asset =
  path :: path
  body :: "string option"
  dependencies :: "path list"

text \<open>
  JavaScript objects have identity, and \<open>seen.indexOf(asset)\<close> compares it. An asset object
  is the pair of its identity and its fields. \<open>getSourceAsset\<close> makes one object for each
  entry of its cache: \<open>Compiled n P\<close> names the object made for the key \<open>P\<close> in the \<open>n\<close>-th
  lifetime of the cache (lifetimes end at \<open>_reset\<close>). \<open>Given k\<close> names an object made by
  anyone else, such as a caller of the exported \<open>SimpleMergeLinker\<close>.
\<close>

datatype ident = Compiled nat path | Given nat

type_synonym obj = "ident \<times> asset"

text \<open>
  The composite asset is the object literal \<open>{path: self.path, assets: assets}\<close> of
  \<open>build\<close>; a linker or minifier may set \<open>body\<close> and \<open>encoding\<close>.
\<close>

record composite =
  cpath :: "string option"
  assets :: "obj list"
  cbody :: "string option"
  encoding :: "string option"

subsection \<open>The collaborators outside the repository\<close>

text \<open>
  Node's \<open>path\<close> and \<open>fs\<close> modules, the \<open>resolve\<close> package and the two regular
  expressions of \<open>JavaScriptAnalyzer\<close> are parameters. A function that can throw
  returns \<open>Inl\<close> of the exception. \<open>latency P\<close> is the time that compiling and analysing
  the file at \<open>P\<close> takes: it orders the completions of requests that are in flight together.
\<close>

record env =
  path_resolve :: "string \<Rightarrow> string \<Rightarrow> string"
  path_resolve1 :: "jsval \<Rightarrow> error + string"
  path_extname :: "string \<Rightarrow> string"
  path_dirname :: "string \<Rightarrow> string"
  readFile :: "string \<Rightarrow> error + string"
  writeFile :: "string \<Rightarrow> string option \<Rightarrow> string \<Rightarrow> error option"
  match_requires :: "string \<Rightarrow> string list option"
  match_id :: "string \<Rightarrow> string"
  resolve_sync :: "string \<Rightarrow> string list \<Rightarrow> string \<Rightarrow> error + string"
  latency :: "string \<Rightarrow> nat"

subsection \<open>Plugins\<close>

text \<open>
  A plugin is called as \<open>plugin(asset, context, done)\<close>; it changes the asset in place
  and calls \<open>done(err)\<close>: \<open>Done a\<close> gives the asset as changed, and a plugin that fails
  leaves the asset as it was (\<open>Failed err None\<close>). Of the context a compiler or analyzer
  uses \<open>resolve\<close> only, which is passed as a function.
\<close>

type_synonym resolver = "string \<Rightarrow> string \<Rightarrow> error + string"
type_synonym plugin = "env \<Rightarrow> resolver \<Rightarrow> asset \<Rightarrow> asset outcome"

definition JavaScriptCompiler :: plugin where
  "JavaScriptCompiler e ctx a =
     (case readFile e (path a) of
        Inl err \<Rightarrow> Failed err None
      | Inr data \<Rightarrow> Done (a\<lparr>body := Some data\<rparr>))"

text \<open>
  \<open>requires.map\<close> inside \<open>try\<close>: the first \<open>context.resolve\<close> that throws ends the map
  and its exception goes to \<open>done\<close>.
\<close>

fun map_resolve :: "(string \<Rightarrow> error + string) \<Rightarrow> string list \<Rightarrow> error + string list" where
  "map_resolve f [] = Inr []"
| "map_resolve f (l # ls) =
     (case f l of
        Inl err \<Rightarrow> Inl err
      | Inr p \<Rightarrow> (case map_resolve f ls of Inl err \<Rightarrow> Inl err | Inr ps \<Rightarrow> Inr (p # ps)))"

definition JavaScriptAnalyzer :: plugin where
  "JavaScriptAnalyzer e ctx a =
     (case body a of
        None \<Rightarrow> Thrown (TypeError ''Cannot call method match of undefined'')
      | Some b \<Rightarrow>
          (case match_requires e b of
             None \<Rightarrow> Done a
           | Some requires \<Rightarrow>
               (case map_resolve (\<lambda>line. ctx (match_id e line) (path_dirname e (path a))) requires of
                  Inl err \<Rightarrow> Failed err None
                | Inr paths \<Rightarrow> Done (a\<lparr>dependencies := paths\<rparr>))))"

text \<open>
  The linker receives the whole packager as context, since \<open>SimpleMergeLinker\<close>
  calls \<open>context.getSourceAsset\<close>; it is therefore named, and interpreted by \<open>build\<close>.
  Any other linker, minifier or postprocessor is a function on the composite asset.
\<close>

datatype linker = SimpleMergeLinker | OtherLinker "composite \<Rightarrow> composite outcome"

type_synonym minifier = "composite \<Rightarrow> composite outcome"

definition UglifyMinifier :: minifier where
  "UglifyMinifier a = Done a"

subsection \<open>The packager\<close>

text \<open>
  Modelled from the spec: \<open>UTILS.once\<close> of lib/utils.js, which is not among the
  sources. The spec (4.2, 5, 9) describes a settle-once handle: the first caller starts
  the computation, an entry moves at most once from pending to settled (success or error),
  later callers attach to the same handle, and every caller receives the settled result.
  A cell is the state of such a handle after its first call: pending, with the callbacks
  that wait for it (each named by a number), or settled with the arguments that the
  computation gave to its \<open>done\<close>.
\<close>

datatype 'a cell = Pending "nat list" | Settled "(error \<times> 'a option) + 'a"

text \<open>
  Modelled from the spec: the state in which a computation that has ended leaves its
  handle. One that throws, or never calls \<open>done\<close>, leaves it pending.
\<close>

fun once_first :: "'a outcome \<Rightarrow> 'a cell" where
  "once_first (Done v) = Settled (Inr v)"
| "once_first (Failed err v) = Settled (Inl (err, v))"
| "once_first (Thrown err) = Pending []"
| "once_first NoCallback = Pending []"

text \<open>Modelled from the spec: what a call of a handle that is not new delivers at once.\<close>

fun once_again :: "'a cell \<Rightarrow> 'a outcome" where
  "once_again (Settled (Inr v)) = Done v"
| "once_again (Settled (Inl (err, v))) = Failed err v"
| "once_again (Pending ks) = NoCallback"

text \<open>
  \<open>calls\<close> and \<open>generation\<close> are not fields of the source. \<open>calls\<close> records each call the
  packager makes to a plugin or to \<open>FS.writeFile\<close>, so that "invoked once" can be stated.
  \<open>generation\<close> counts the calls of \<open>_reset\<close>, to name the objects of the cache.
\<close>

datatype event =
    CompileCall path
  | AnalyzeCall path
  | LinkCall
  | MinifyCall
  | WriteCall string "string option" string

datatype main_spec = MainUnset | MainString string | MainArray "string list"

record packager =
  basedir :: string
  ppath :: "string option"
  main :: main_spec
  compilers :: "(string \<times> plugin) list"
  analyzer :: "plugin option"
  linker :: "linker option"
  minify :: bool
  minifier :: "minifier option"
  postprocessors :: "(composite \<Rightarrow> composite outcome) list option"
  sourceAssets :: "path \<rightharpoonup> obj cell"
  build_memo :: "composite cell option"
  calls :: "event list"
  generation :: nat

definition reset :: "packager \<Rightarrow> packager" where
  "reset self =
     self\<lparr>sourceAssets := Map.empty, build_memo := None, generation := Suc (generation self)\<rparr>"

definition invalidate :: "packager \<Rightarrow> packager" where
  "invalidate self = reset self"

definition resolve :: "env \<Rightarrow> packager \<Rightarrow> resolver" where
  "resolve e self moduleId dir =
     resolve_sync e moduleId (map fst (compilers self)) (if dir = [] then basedir self else dir)"

definition show_path :: "string option \<Rightarrow> string" where
  "show_path p = (case p of None \<Rightarrow> ''undefined'' | Some s \<Rightarrow> s)"

text \<open>
  The function that \<open>getSourceAsset\<close> wraps in \<open>UTILS.once\<close>, for the resolved path:
  the calls it makes to plugins and what reaches its \<open>done\<close>. When the analyzer fails, the
  source calls \<open>done(err, asset)\<close>.
\<close>

definition compile_asset :: "env \<Rightarrow> packager \<Rightarrow> path \<Rightarrow> event list \<times> asset outcome" where
  "compile_asset e self assetPath =
     (case map_of (compilers self) (path_extname e assetPath) of
        None \<Rightarrow> ([], Failed (Error (''No compiler for '' @ assetPath)) None)
      | Some compiler \<Rightarrow>
          (case analyzer self of
             None \<Rightarrow> ([], Failed (Error (''No analyzer for '' @ show_path (ppath self))) None)
           | Some analyze \<Rightarrow>
               (case compiler e (resolve e self) \<lparr>path = assetPath, body = None, dependencies = []\<rparr> of
                  Done a \<Rightarrow>
                    ([CompileCall assetPath, AnalyzeCall assetPath],
                     case analyze e (resolve e self) a of
                       Done a2 \<Rightarrow> Done a2
                     | Failed err v \<Rightarrow> Failed err (Some a)
                     | Thrown err \<Rightarrow> Thrown err
                     | NoCallback \<Rightarrow> NoCallback)
                | Failed err v \<Rightarrow> ([CompileCall assetPath], Failed err None)
                | Thrown err \<Rightarrow> ([CompileCall assetPath], Thrown err)
                | NoCallback \<Rightarrow> ([CompileCall assetPath], NoCallback))))"

text \<open>
  \<open>getSourceAsset(assetPath, done)\<close>, with the wrapped function run to its completion
  within the call. The object literal of the source is the object of this entry of the cache.
\<close>

definition getSourceAsset :: "env \<Rightarrow> packager \<Rightarrow> string \<Rightarrow> packager \<times> obj outcome" where
  "getSourceAsset e self p =
     (let assetPath = path_resolve e (basedir self) p in
      case sourceAssets self assetPath of
        None \<Rightarrow>
          (case compile_asset e self assetPath of
             (evs, out0) \<Rightarrow>
               (let out = map_outcome (Pair (Compiled (generation self) assetPath)) out0 in
                (self\<lparr>sourceAssets := (sourceAssets self)(assetPath \<mapsto> once_first out),
                       calls := calls self @ evs\<rparr>, out)))
      | Some c \<Rightarrow> (self, once_again c))"

text \<open>
  The same lines of the source, split where they wait: \<open>request\<close> is the call of
  \<open>getSourceAsset\<close> by the callback numbered \<open>k\<close>, up to its return, and gives the callbacks
  called within it. A new handle starts the wrapped function, which calls the compiler;
  when no compiler or no analyzer is configured it calls \<open>done\<close> at once. A pending handle
  takes the callback into its list. \<open>finish\<close> is the rest of the wrapped function for the
  key \<open>P\<close>, when the compiler calls back: it gives the callbacks that the handle then calls
  and what they receive.
\<close>

definition request :: "env \<Rightarrow> packager \<Rightarrow> string \<Rightarrow> nat \<Rightarrow> packager \<times> (nat \<times> obj outcome) list" where
  "request e self p k =
     (let assetPath = path_resolve e (basedir self) p in
      case sourceAssets self assetPath of
        None \<Rightarrow>
          (case compile_asset e self assetPath of
             (evs, out0) \<Rightarrow>
               (let out = map_outcome (Pair (Compiled (generation self) assetPath)) out0 in
                if evs = [] then
                  (self\<lparr>sourceAssets := (sourceAssets self)(assetPath \<mapsto> once_first out)\<rparr>,
                   [(k, out)])
                else
                  (self\<lparr>sourceAssets := (sourceAssets self)(assetPath \<mapsto> Pending [k]),
                         calls := calls self @ take 1 evs\<rparr>, [])))
      | Some (Pending ks) \<Rightarrow>
          (self\<lparr>sourceAssets := (sourceAssets self)(assetPath \<mapsto> Pending (ks @ [k]))\<rparr>, [])
      | Some (Settled r) \<Rightarrow> (self, [(k, once_again (Settled r))]))"

definition finish :: "env \<Rightarrow> packager \<Rightarrow> path \<Rightarrow> packager \<times> nat list \<times> obj outcome" where
  "finish e self assetPath =
     (case sourceAssets self assetPath of
        Some (Pending ks) \<Rightarrow>
          (case compile_asset e self assetPath of
             (evs, out0) \<Rightarrow>
               (case map_outcome (Pair (Compiled (generation self) assetPath)) out0 of
                  Done x \<Rightarrow>
                    (self\<lparr>sourceAssets := (sourceAssets self)(assetPath \<mapsto> Settled (Inr x)),
                           calls := calls self @ drop 1 evs\<rparr>, ks, Done x)
                | Failed err v \<Rightarrow>
                    (self\<lparr>sourceAssets := (sourceAssets self)(assetPath \<mapsto> Settled (Inl (err, v))),
                           calls := calls self @ drop 1 evs\<rparr>, ks, Failed err v)
                | Thrown err \<Rightarrow> (self\<lparr>calls := calls self @ drop 1 evs\<rparr>, [], Thrown err)
                | NoCallback \<Rightarrow> (self\<lparr>calls := calls self @ drop 1 evs\<rparr>, [], NoCallback)))
      | Some (Settled r) \<Rightarrow> (self, [], NoCallback)
      | None \<Rightarrow> (self, [], NoCallback))"

subsection \<open>Closure expansion\<close>

text \<open>
  \<open>ASYNC.mapSeries(asset.dependencies, getSourceAsset, callback)\<close> of the async
  library: the paths are requested one after the other, each after the one before has
  called back, and every callback stores its second argument in \<open>results\<close>. The final
  callback receives \<open>(err, results)\<close>; after an error \<open>results\<close> holds the assets obtained so
  far followed by what came with the error: the asset when the analyzer failed,
  \<open>undefined\<close> (\<open>None\<close>) otherwise.
\<close>

datatype series = Series "error option" "obj option list" | SeriesThrown error | SeriesNoCallback

fun mapSeries :: "env \<Rightarrow> packager \<Rightarrow> path list \<Rightarrow> packager \<times> series" where
  "mapSeries e self [] = (self, Series None [])"
| "mapSeries e self (p # ps) =
     (case getSourceAsset e self p of
        (s1, Done x) \<Rightarrow>
          (case mapSeries e s1 ps of
             (s2, Series err rs) \<Rightarrow> (s2, Series err (Some x # rs))
           | (s2, SeriesThrown err) \<Rightarrow> (s2, SeriesThrown err)
           | (s2, SeriesNoCallback) \<Rightarrow> (s2, SeriesNoCallback))
      | (s1, Failed err v) \<Rightarrow> (s1, Series (Some err) [v])
      | (s1, Thrown err) \<Rightarrow> (s1, SeriesThrown err)
      | (s1, NoCallback) \<Rightarrow> (s1, SeriesNoCallback))"

text \<open>
  \<open>_expandDependencies(context, seen, expanded, deps, done)\<close>. The arrays \<open>seen\<close> and
  \<open>expanded\<close> are shared by all recursive calls, so they are passed and returned.
  \<open>seen.indexOf(asset)\<close> compares the identities of the objects.
  The callback of \<open>mapSeries\<close> does not look at \<open>err\<close>, and the callback of the
  recursive call does not look at its \<open>err\<close> either. An \<open>undefined\<close> element has no
  \<open>dependencies\<close>: reading it throws. The result is \<open>None\<close> where the recursion would
  not end.
\<close>

partial_function (option) expandDependencies ::
  "env \<Rightarrow> packager \<Rightarrow> obj list \<Rightarrow> obj list \<Rightarrow> obj option list
     \<Rightarrow> (packager \<times> obj list \<times> obj list \<times> unit outcome) option" where
  "expandDependencies e self seen expanded deps =
     (case deps of
        [] \<Rightarrow> Some (self, seen, expanded, Done ())
      | None # rest \<Rightarrow>
          Some (self, seen, expanded,
                Thrown (TypeError ''Cannot read property dependencies of undefined''))
      | Some x # rest \<Rightarrow>
          if fst x \<in> set (map fst seen) then expandDependencies e self seen expanded rest
          else if dependencies (snd x) = [] then
            expandDependencies e self (seen @ [x]) (expanded @ [x]) rest
          else
            (case mapSeries e self (dependencies (snd x)) of
               (s1, Series err found) \<Rightarrow>
                 Option.bind (expandDependencies e s1 (seen @ [x]) expanded found)
                   (\<lambda>(s2, seen2, expanded2, out).
                      case out of
                        Done u \<Rightarrow> expandDependencies e s2 seen2 (expanded2 @ [x]) rest
                      | Failed err2 v \<Rightarrow> expandDependencies e s2 seen2 (expanded2 @ [x]) rest
                      | Thrown err2 \<Rightarrow> Some (s2, seen2, expanded2, Thrown err2)
                      | NoCallback \<Rightarrow> Some (s2, seen2, expanded2, NoCallback))
             | (s1, SeriesThrown err) \<Rightarrow> Some (s1, seen @ [x], expanded, Thrown err)
             | (s1, SeriesNoCallback) \<Rightarrow> Some (s1, seen @ [x], expanded, NoCallback)))"

declare expandDependencies.simps [code]

text \<open>\<open>Array.prototype.join\<close> with a separator; an \<open>undefined\<close> element joins as the empty string.\<close>

fun join :: "string \<Rightarrow> string option list \<Rightarrow> string" where
  "join sep [] = []"
| "join sep [x] = (case x of None \<Rightarrow> [] | Some s \<Rightarrow> s)"
| "join sep (x # y # ys) = (case x of None \<Rightarrow> [] | Some s \<Rightarrow> s) @ sep @ join sep (y # ys)"

definition run_SimpleMergeLinker ::
  "env \<Rightarrow> packager \<Rightarrow> composite \<Rightarrow> (packager \<times> composite outcome) option" where
  "run_SimpleMergeLinker e self a =
     Option.bind (expandDependencies e self [] [] (map Some (assets a)))
       (\<lambda>(s1, seen, expanded, out).
          Some (s1, case out of
                      Done u \<Rightarrow>
                        Done (a\<lparr>cbody := Some (join [CHR 0x0A] (map (\<lambda>x. body (snd x)) expanded))\<rparr>)
                    | Failed err v \<Rightarrow> Failed err None
                    | Thrown err \<Rightarrow> Thrown err
                    | NoCallback \<Rightarrow> NoCallback))"

subsection \<open>The build\<close>

text \<open>
  The configuration check at the head of the function that \<open>build\<close> wraps in
  \<open>UTILS.once\<close>: the value it leaves in the variable \<open>err\<close>. The source never reads
  \<open>err\<close> again.
\<close>

definition build_err :: "packager \<Rightarrow> error option" where
  "build_err self =
     (if main self = MainUnset \<or> main self = MainString [] then
        Some (Error (''Main module not specified for '' @ show_path (ppath self)))
      else if linker self = None then
        Some (Error (''Linker not found for '' @ show_path (ppath self)))
      else if minifier self = None \<and> minify self then
        Some (Error (''Minifier not found for '' @ show_path (ppath self)))
      else None)"

text \<open>
  \<open>ASYNC.map(main, iterator, next)\<close> of the async library calls the iterator on every
  entry in turn, before any of the requests it makes completes. What happens is a list of
  moments in the order of time: a callback is called with some arguments, or an exception
  is thrown that nothing catches.
\<close>

datatype moment = Called nat "obj outcome" | Excepted error

text \<open>
  The loop over the entries of \<open>main\<close>, each with its index. The iterator resolves the
  entry (\<open>self.resolve\<close> throws when nothing is found, which ends the loop) and requests the
  source asset. The result lists the moments of the loop, the keys whose compilation the
  loop has started, and whether an exception ended it.
\<close>

fun start_main ::
  "env \<Rightarrow> packager \<Rightarrow> (nat \<times> string) list \<Rightarrow> packager \<times> moment list \<times> path list \<times> bool" where
  "start_main e self [] = (self, [], [], False)"
| "start_main e self ((k, p) # rest) =
     (case resolve e self p (basedir self) of
        Inl err \<Rightarrow> (self, [Excepted err], [], True)
      | Inr q \<Rightarrow>
          (case request e self q k of
             (s1, ds) \<Rightarrow>
               (case start_main e s1 rest of
                  (s2, ms, keys, threw) \<Rightarrow>
                    (s2, map (\<lambda>(k, out). Called k out) ds @ ms,
                     (if sourceAssets self (path_resolve e (basedir self) q) = None \<and> ds = []
                      then [path_resolve e (basedir self) q] else []) @ keys,
                     threw))))"

text \<open>
  The compilations in flight complete one after the other. One that throws ends
  everything.
\<close>

fun finish_main :: "env \<Rightarrow> packager \<Rightarrow> path list \<Rightarrow> packager \<times> moment list" where
  "finish_main e self [] = (self, [])"
| "finish_main e self (P # Ps) =
     (case finish e self P of
        (s1, ks, Thrown err) \<Rightarrow> (s1, [Excepted err])
      | (s1, ks, out) \<Rightarrow>
          (case finish_main e s1 Ps of (s2, ms) \<Rightarrow> (s2, map (\<lambda>k. Called k out) ks @ ms)))"

text \<open>The whole of \<open>ASYNC.map\<close> on \<open>main\<close>: the loop, then the completions in the order of their times.\<close>

definition run_main :: "env \<Rightarrow> packager \<Rightarrow> string list \<Rightarrow> packager \<times> moment list" where
  "run_main e self ps =
     (case start_main e self (zip [0..<length ps] ps) of
        (s1, ms1, keys, threw) \<Rightarrow>
          if threw then (s1, ms1)
          else (case finish_main e s1 (sort_key (latency e) keys) of
                  (s2, ms2) \<Rightarrow> (s2, ms1 @ ms2)))"

text \<open>
  What reaches the callback of \<open>ASYNC.map\<close>. The first error that a request delivers is
  passed on at once, and an exception ends everything; whichever comes first in time
  decides. Otherwise the callback receives the assets, in the order of \<open>main\<close>, when every
  request has delivered one.
\<close>

fun first_problem :: "moment list \<Rightarrow> obj list outcome option" where
  "first_problem [] = None"
| "first_problem (Called k (Failed err v) # ms) = Some (Failed err None)"
| "first_problem (Excepted err # ms) = Some (Thrown err)"
| "first_problem (m # ms) = first_problem ms"

fun delivered_to :: "moment list \<Rightarrow> nat \<Rightarrow> obj option" where
  "delivered_to [] k = None"
| "delivered_to (Called j (Done x) # ms) k = (if j = k then Some x else delivered_to ms k)"
| "delivered_to (m # ms) k = delivered_to ms k"

definition map_result :: "nat \<Rightarrow> moment list \<Rightarrow> obj list outcome" where
  "map_result n ms =
     (case first_problem ms of
        Some out \<Rightarrow> out
      | None \<Rightarrow>
          (case those (map (delivered_to ms) [0..<n]) of
             None \<Rightarrow> NoCallback
           | Some found \<Rightarrow> Done found))"

text \<open>The third function of the waterfall.\<close>

definition minify_step :: "packager \<Rightarrow> composite \<Rightarrow> packager \<times> composite outcome" where
  "minify_step self a =
     (if minify self then
        (case minifier self of
           None \<Rightarrow> (self, Thrown (TypeError ''minifier is not a function''))
         | Some m \<Rightarrow>
             (self\<lparr>calls := calls self @ [MinifyCall]\<rparr>,
              case m a of
                Done a2 \<Rightarrow> Done a2
              | Failed err v \<Rightarrow> Failed err None
              | Thrown err \<Rightarrow> Thrown err
              | NoCallback \<Rightarrow> NoCallback))
      else (self, Done a))"

text \<open>The second function of the waterfall, followed by the third when the linker succeeds.\<close>

definition link_step :: "env \<Rightarrow> packager \<Rightarrow> composite \<Rightarrow> (packager \<times> composite outcome) option" where
  "link_step e self a =
     (case linker self of
        None \<Rightarrow> Some (self, Thrown (TypeError ''linker is not a function''))
      | Some l \<Rightarrow>
          Option.bind
            (case l of
               SimpleMergeLinker \<Rightarrow> run_SimpleMergeLinker e (self\<lparr>calls := calls self @ [LinkCall]\<rparr>) a
             | OtherLinker f \<Rightarrow> Some (self\<lparr>calls := calls self @ [LinkCall]\<rparr>, f a))
            (\<lambda>(s2, out).
               case out of
                 Done a2 \<Rightarrow> Some (minify_step s2 a2)
               | Failed err v \<Rightarrow> Some (s2, Failed err None)
               | Thrown err \<Rightarrow> Some (s2, Thrown err)
               | NoCallback \<Rightarrow> Some (s2, NoCallback)))"

text \<open>The waterfall on the entries of \<open>main\<close>.\<close>

definition waterfall :: "env \<Rightarrow> packager \<Rightarrow> string list \<Rightarrow> (packager \<times> composite outcome) option" where
  "waterfall e self ps =
     (case run_main e self ps of
        (s1, ms) \<Rightarrow>
          (case map_result (length ps) ms of
             Done found \<Rightarrow>
               link_step e s1 \<lparr>cpath = ppath s1, assets = found, cbody = None, encoding = None\<rparr>
           | Failed err v \<Rightarrow> Some (s1, Failed err None)
           | Thrown err \<Rightarrow> Some (s1, Thrown err)
           | NoCallback \<Rightarrow> Some (s1, NoCallback)))"

text \<open>
  The function that \<open>build\<close> wraps in \<open>UTILS.once\<close>. \<open>ASYNC.map\<close> reads \<open>main.map\<close>,
  which throws when \<open>main\<close> is \<open>undefined\<close>; a string is made a list of one.
  \<open>postprocessors\<close> is read and defaulted to \<open>[]\<close>, and not used by any function of the
  waterfall.
\<close>

definition build_fn :: "env \<Rightarrow> packager \<Rightarrow> (packager \<times> composite outcome) option" where
  "build_fn e self =
     (case main self of
        MainUnset \<Rightarrow> Some (self, Thrown (TypeError ''Cannot read property map of undefined''))
      | MainString p \<Rightarrow> waterfall e self [p]
      | MainArray ps \<Rightarrow> waterfall e self ps)"

definition build :: "env \<Rightarrow> packager \<Rightarrow> (packager \<times> composite outcome) option" where
  "build e self =
     (case build_memo self of
        None \<Rightarrow>
          Option.bind (build_fn e self)
            (\<lambda>(s1, out). Some (s1\<lparr>build_memo := Some (once_first out)\<rparr>, out))
      | Some c \<Rightarrow> Some (self, once_again c))"

subsection \<open>Writing\<close>

text \<open>
  \<open>write(outputPath, done)\<close> (the name is a keyword of the prover), with \<open>callback\<close> for
  the parameter \<open>done\<close> and \<open>done1\<close> for its value after the first statement. The result
  names the value that ends up in \<open>done\<close> and what reached it. Calling a \<open>done\<close> that is
  not a function throws; \<open>FS.writeFile\<close> does not call one.
\<close>

definition write_file :: "env \<Rightarrow> packager \<Rightarrow> jsval \<Rightarrow> jsval \<Rightarrow> (packager \<times> jsval \<times> unit outcome) option" where
  "write_file e self outputPath callback =
     (let (outputPath1, done1) =
            (if \<not> truthy callback \<and> is_function outputPath then (JNull, outputPath)
             else (outputPath, callback));
          outputPath2 =
            (if \<not> truthy outputPath1 then
               (case ppath self of None \<Rightarrow> JUndefined | Some p \<Rightarrow> JString p)
             else outputPath1)
      in case path_resolve1 e outputPath2 of
           Inl err \<Rightarrow> Some (self, done1, Thrown err)
         | Inr target \<Rightarrow>
             Option.bind (build e self)
               (\<lambda>(s1, out).
                  case out of
                    Failed err v \<Rightarrow>
                      Some (s1, done1,
                            if is_function done1 then Failed err None
                            else Thrown (TypeError ''done is not a function''))
                  | Thrown err \<Rightarrow> Some (s1, done1, Thrown err)
                  | NoCallback \<Rightarrow> Some (s1, done1, NoCallback)
                  | Done a \<Rightarrow>
                      (let enc = (case encoding a of
                                    None \<Rightarrow> ''utf8''
                                  | Some en \<Rightarrow> if en = [] then ''utf8'' else en)
                       in Some (s1\<lparr>calls := calls s1 @ [WriteCall target (cbody a) enc]\<rparr>, done1,
                                if \<not> is_function done1 then NoCallback
                                else (case writeFile e target (cbody a) enc of
                                        None \<Rightarrow> Done ()
                                      | Some err \<Rightarrow> Failed err None)))))"

subsection \<open>Notions used to state the properties\<close>

text \<open>\<open>s'\<close> is \<open>s\<close> up to the two caches and the record of calls: the configuration is the same.\<close>

definition same_config :: "packager \<Rightarrow> packager \<Rightarrow> bool" where
  "same_config s s' \<longleftrightarrow>
     s' = s\<lparr>sourceAssets := sourceAssets s', build_memo := build_memo s', calls := calls s'\<rparr>"

text \<open>What a request for a path delivers when the cache has no entry for it.\<close>

definition object_of :: "env \<Rightarrow> packager \<Rightarrow> string \<Rightarrow> obj outcome" where
  "object_of e self p =
     map_outcome (Pair (Compiled (generation self) (path_resolve e (basedir self) p)))
       (snd (compile_asset e self (path_resolve e (basedir self) p)))"

text \<open>
  Every entry of the source asset cache is settled, with what the wrapped function yields
  for its key.
\<close>

definition coherent :: "env \<Rightarrow> packager \<Rightarrow> bool" where
  "coherent e self \<longleftrightarrow>
     (\<forall>P c. sourceAssets self P = Some c \<longrightarrow>
        c = once_first (map_outcome (Pair (Compiled (generation self) P))
                          (snd (compile_asset e self P)))
        \<and> (\<forall>ks. c \<noteq> Pending ks))"

text \<open>The value of an outcome that delivers one.\<close>

fun results :: "'a outcome list \<Rightarrow> 'a list" where
  "results [] = []"
| "results (Done v # outs) = v # results outs"
| "results (out # outs) = results outs"

text \<open>The objects behind the dependencies of an asset, in order.\<close>

definition deps_of :: "env \<Rightarrow> packager \<Rightarrow> obj \<Rightarrow> obj list" where
  "deps_of e self x = results (map (object_of e self) (dependencies (snd x)))"

text \<open>
  A dependency graph on the set \<open>A\<close> of asset objects: no two members share an identity,
  and every dependency of a member compiles and analyses to a member.
\<close>

definition dependency_graph :: "env \<Rightarrow> packager \<Rightarrow> obj set \<Rightarrow> bool" where
  "dependency_graph e self A \<longleftrightarrow>
     inj_on fst A
     \<and> (\<forall>x\<in>A. \<forall>d\<in>set (dependencies (snd x)). \<exists>y\<in>A. object_of e self d = Done y)"

text \<open>Every dependency of a member of the sequence stands before it.\<close>

definition dependency_first :: "env \<Rightarrow> packager \<Rightarrow> obj list \<Rightarrow> bool" where
  "dependency_first e self xs \<longleftrightarrow>
     (\<forall>i<length xs. set (deps_of e self (xs ! i)) \<subseteq> set (take i xs))"

text \<open>
  The post-order of the spec (4.3). \<open>tree_walk n deps x\<close> walks the dependency tree below
  \<open>x\<close> to the depth \<open>n\<close>, an asset after the walks of its dependencies, in their order.
  \<open>first_occurrences acc xs\<close> appends to \<open>acc\<close> the members of \<open>xs\<close> that are new, each where
  it first occurs.
\<close>

fun tree_walk :: "nat \<Rightarrow> ('a \<Rightarrow> 'a list) \<Rightarrow> 'a \<Rightarrow> 'a list" where
  "tree_walk 0 deps x = [x]"
| "tree_walk (Suc n) deps x = concat (map (tree_walk n deps) (deps x)) @ [x]"

fun first_occurrences :: "'a list \<Rightarrow> 'a list \<Rightarrow> 'a list" where
  "first_occurrences acc [] = acc"
| "first_occurrences acc (x # xs) = first_occurrences (if x \<in> set acc then acc else acc @ [x]) xs"

text \<open>
  A rank that falls along every dependency: the graph on \<open>A\<close> has no cycle. \<open>below_open\<close>
  says that the assets about to be expanded rank below every asset that is seen and not
  yet expanded. \<open>expansion_post\<close> is what a call of \<open>_expandDependencies\<close> achieves on a
  dependency graph: it returns through \<open>done\<close> with no error, having appended the newly seen
  assets \<open>ns\<close> to \<open>seen\<close> and the same assets, in some order \<open>ex\<close>, to \<open>expanded\<close>; on a graph
  with no cycle the order is the post-order.
\<close>

definition decreasing_rank :: "env \<Rightarrow> packager \<Rightarrow> obj set \<Rightarrow> (obj \<Rightarrow> nat) \<Rightarrow> bool" where
  "decreasing_rank e s0 A rank \<longleftrightarrow> (\<forall>x\<in>A. \<forall>y\<in>set (deps_of e s0 x). rank y < rank x)"

definition below_open :: "(obj \<Rightarrow> nat) \<Rightarrow> obj list \<Rightarrow> obj list \<Rightarrow> obj list \<Rightarrow> bool" where
  "below_open rank seen expanded xs \<longleftrightarrow>
     (\<forall>x g. x \<in> set xs \<longrightarrow> g \<in> set seen \<longrightarrow> g \<notin> set expanded \<longrightarrow> rank x < rank g)"

definition walks :: "env \<Rightarrow> packager \<Rightarrow> (obj \<Rightarrow> nat) \<Rightarrow> obj list \<Rightarrow> obj list" where
  "walks e s0 rank xs = concat (map (\<lambda>x. tree_walk (rank x) (deps_of e s0) x) xs)"

definition expansion_post ::
  "env \<Rightarrow> packager \<Rightarrow> obj set \<Rightarrow> (obj \<Rightarrow> nat) \<Rightarrow> packager \<Rightarrow> obj list \<Rightarrow> obj list
     \<Rightarrow> obj list \<Rightarrow> bool" where
  "expansion_post e s0 A rank s seen expanded xs \<longleftrightarrow>
     (\<exists>s' ns ex.
        expandDependencies e s seen expanded (map Some xs)
          = Some (s', seen @ ns, expanded @ ex, Done ())
        \<and> coherent e s' \<and> same_config s s'
        \<and> distinct (map fst ns) \<and> set (map fst ns) \<inter> set (map fst seen) = {} \<and> set ns \<subseteq> A
        \<and> set ex = set ns \<and> distinct ex
        \<and> set xs \<subseteq> set seen \<union> set ns
        \<and> (decreasing_rank e s0 A rank \<longrightarrow> below_open rank seen expanded xs
             \<longrightarrow> dependency_first e s0 expanded \<longrightarrow> set expanded \<subseteq> set seen
             \<longrightarrow> dependency_first e s0 (expanded @ ex)
                 \<and> expanded @ ex = first_occurrences expanded (walks e s0 rank xs)))"



subsection \<open>An example project\<close>

text \<open>
  Files \<open>/a.js\<close> (requires b and c), \<open>/b.js\<close> and \<open>/c.js\<close> (each requires d) and \<open>/d.js\<close>
  form a diamond; \<open>/self.js\<close> requires itself; \<open>/ping.js\<close> and \<open>/pong.js\<close> require each
  other; \<open>/broken.js\<close> requires a file that does not exist; \<open>/half.js\<close> requires a module
  that does not resolve, and \<open>/whole.js\<close> requires \<open>/half.js\<close>.
\<close>

definition example_files :: "(string \<times> string) list" where
  "example_files =
     [(''/a.js'', ''a;''), (''/b.js'', ''b;''), (''/c.js'', ''c;''), (''/d.js'', ''d;''),
      (''/self.js'', ''self;''), (''/ping.js'', ''ping;''), (''/pong.js'', ''pong;''),
      (''/broken.js'', ''broken;''), (''/half.js'', ''half;''), (''/whole.js'', ''whole;'')]"

definition example_requires :: "(string \<times> string list) list" where
  "example_requires =
     [(''a;'', [''b'', ''c'']), (''b;'', [''d'']), (''c;'', [''d'']),
      (''self;'', [''self'']), (''ping;'', [''pong'']), (''pong;'', [''ping'']),
      (''broken;'', [''missing'']), (''half;'', [''nowhere'']), (''whole;'', [''half''])]"

definition example_env :: env where
  "example_env = \<lparr>
     path_resolve = (\<lambda>dir p. p),
     path_resolve1 = (\<lambda>v. case v of JString s \<Rightarrow> Inr s
                            | _ \<Rightarrow> Inl (TypeError ''Arguments to path.resolve must be strings'')),
     path_extname = (\<lambda>p. drop (length p - 3) p),
     path_dirname = (\<lambda>p. ''/''),
     readFile = (\<lambda>p. case map_of example_files p of
                        None \<Rightarrow> Inl (Error (''ENOENT '' @ p))
                      | Some d \<Rightarrow> Inr d),
     writeFile = (\<lambda>p d enc. None),
     match_requires = map_of example_requires,
     match_id = (\<lambda>line. line),
     resolve_sync = (\<lambda>i exts dir.
                       if i = ''nowhere'' then Inl (Error ''Cannot find module nowhere'')
                       else if take 1 i = ''/'' then Inr i
                       else Inr (dir @ i @ ''.js'')),
     latency = length
   \<rparr>"

definition example_packager :: packager where
  "example_packager = \<lparr>
     basedir = ''/'', ppath = Some ''/out.js'', main = MainString ''/a.js'',
     compilers = [(''.js'', JavaScriptCompiler)], analyzer = Some JavaScriptAnalyzer,
     linker = Some SimpleMergeLinker, minify = False, minifier = None, postprocessors = None,
     sourceAssets = Map.empty, build_memo = None, calls = [], generation = 0 \<rparr>"

text \<open>The objects of the example project, as \<open>getSourceAsset\<close> makes them.\<close>

definition example_object :: "string \<Rightarrow> string \<Rightarrow> string list \<Rightarrow> obj" where
  "example_object p b ds = (Compiled 0 p, \<lparr>path = p, body = Some b, dependencies = ds\<rparr>)"

definition example_diamond :: "obj list" where
  "example_diamond =
     [example_object ''/a.js'' ''a;'' [''/b.js'', ''/c.js''],
      example_object ''/b.js'' ''b;'' [''/d.js''],
      example_object ''/c.js'' ''c;'' [''/d.js''],
      example_object ''/d.js'' ''d;'' []]"

definition example_cycles :: "obj list" where
  "example_cycles =
     [example_object ''/self.js'' ''self;'' [''/self.js''],
      example_object ''/ping.js'' ''ping;'' [''/pong.js''],
      example_object ''/pong.js'' ''pong;'' [''/ping.js'']]"

text \<open>The same project after \<open>/a.js\<close> has been rewritten.\<close>

definition example_env_changed :: env where
  "example_env_changed =
     example_env\<lparr>readFile := (\<lambda>p. if p = ''/a.js'' then Inr ''d;'' else readFile example_env p)\<rparr>"

section \<open>Properties\<close>

subsection \<open>The source asset cache\<close>

text \<open>\<open>invalidate\<close> empties both caches: the next request for a path starts anew, on a new object.\<close>

lemma invalidate_forgets:
  "sourceAssets (invalidate self) P = None \<and> build_memo (invalidate self) = None
   \<and> generation (invalidate self) = Suc (generation self)"
  by (simp add: invalidate_def reset_def)




lemma getSourceAsset_cached:
  "sourceAssets self (path_resolve e (basedir self) p) = Some c
     \<Longrightarrow> getSourceAsset e self p = (self, once_again c)"
  by (simp add: getSourceAsset_def)

lemma getSourceAsset_fresh:
  "sourceAssets self (path_resolve e (basedir self) p) = None
     \<Longrightarrow> getSourceAsset e self p =
           (self\<lparr>sourceAssets := (sourceAssets self)(path_resolve e (basedir self) p \<mapsto>
                      once_first (object_of e self p)),
                  calls := calls self @ fst (compile_asset e self (path_resolve e (basedir self) p))\<rparr>,
            object_of e self p)"
  by (simp add: getSourceAsset_def object_of_def Let_def split: prod.split)

lemma getSourceAsset_same_config:
  "getSourceAsset e self p = (s', out) \<Longrightarrow> same_config self s'"
  by (cases "sourceAssets self (path_resolve e (basedir self) p)")
     (auto simp: getSourceAsset_fresh getSourceAsset_cached same_config_def)


lemma same_config_refl: "same_config s s"
  by (simp add: same_config_def)

lemma same_config_trans: "same_config a b \<Longrightarrow> same_config b c \<Longrightarrow> same_config a c"
  unfolding same_config_def
  by (cases a, cases b, cases c) simp

lemma same_config_fields:
  assumes "same_config s s'"
  shows "basedir s' = basedir s" "compilers s' = compilers s" "analyzer s' = analyzer s"
        "ppath s' = ppath s" "generation s' = generation s"
  using assms unfolding same_config_def by (cases s, cases s', simp)+






lemma resolve_same_config: "same_config s s' \<Longrightarrow> resolve e s' = resolve e s"
proof -
  assume c: "same_config s s'"
  show ?thesis
    by (rule ext, rule ext) (simp add: resolve_def same_config_fields [OF c])
qed

lemma compile_asset_same_config:
  assumes "same_config s s'"
  shows "compile_asset e s' P = compile_asset e s P"
  unfolding compile_asset_def same_config_fields [OF assms] resolve_same_config [OF assms] ..

lemma object_of_same_config:
  assumes "same_config s s'"
  shows "object_of e s' p = object_of e s p"
  unfolding object_of_def same_config_fields [OF assms] compile_asset_same_config [OF assms] ..







text \<open>
  A failure is kept as an asset is: \<open>/missing.js\<close> cannot be read, the second request
  delivers the error of the first, and the compiler has been called once.
\<close>

lemma getSourceAsset_failure_cached:
  "snd (getSourceAsset example_env example_packager ''/missing.js'')
     = Failed (Error ''ENOENT /missing.js'') None
   \<and> snd (getSourceAsset example_env_changed
             (fst (getSourceAsset example_env example_packager ''/missing.js'')) ''/missing.js'')
     = Failed (Error ''ENOENT /missing.js'') None
   \<and> calls (fst (getSourceAsset example_env_changed
                    (fst (getSourceAsset example_env example_packager ''/missing.js''))
                    ''/missing.js''))
     = [CompileCall ''/missing.js'']"
  by code_simp

lemma compile_asset_shape:
  assumes comp: "\<forall>c \<in> snd ` set (compilers self). c = JavaScriptCompiler"
      and an: "analyzer self = Some JavaScriptAnalyzer"
      and r: "snd (compile_asset e self P) = Done a"
  shows "path a = P \<and> (\<exists>data. body a = Some data \<and> readFile e P = Inr data
           \<and> (match_requires e data = None \<longrightarrow> dependencies a = []))"
proof (cases "map_of (compilers self) (path_extname e P)")
  case None
  then show ?thesis using r by (simp add: compile_asset_def)
next
  case (Some c)
  then have "c \<in> snd ` set (compilers self)"
    by (metis map_of_SomeD snd_conv image_eqI)
  then have c: "c = JavaScriptCompiler" using comp by blast
  show ?thesis
    using r Some an c
    by (auto simp: compile_asset_def JavaScriptCompiler_def JavaScriptAnalyzer_def
             split: sum.splits option.splits)
qed

text \<open>
  Claim C9. With the compiler and the analyzer of the repository, an asset that
  \<open>getSourceAsset\<close> yields has the resolved path as its \<open>path\<close>, has the content of that file
  as its \<open>body\<close>, and has the empty list as its \<open>dependencies\<close> when the analyzer's pattern finds
  no require line. (\<open>dependencies\<close> is a list in every asset by its type.)
\<close>

theorem getSourceAsset_asset_shape:
  assumes coh: "coherent e self"
      and comp: "\<forall>c \<in> snd ` set (compilers self). c = JavaScriptCompiler"
      and an: "analyzer self = Some JavaScriptAnalyzer"
      and g: "getSourceAsset e self p = (s', Done x)"
  shows "path (snd x) = path_resolve e (basedir self) p
         \<and> (\<exists>data. body (snd x) = Some data \<and> readFile e (path (snd x)) = Inr data
              \<and> (match_requires e data = None \<longrightarrow> dependencies (snd x) = []))"
proof -
  let ?P = "path_resolve e (basedir self) p"
  have "object_of e self p = Done x"
  proof (cases "sourceAssets self ?P")
    case None
    then show ?thesis using g by (simp add: getSourceAsset_fresh)
  next
    case (Some c)
    then have "once_again c = Done x" using g by (simp add: getSourceAsset_cached)
    moreover have "c = once_first (object_of e self p)"
      using coh Some by (simp add: coherent_def object_of_def)
    ultimately show ?thesis
      by (cases "object_of e self p") simp_all
  qed
  then have "snd (compile_asset e self ?P) = Done (snd x)"
    by (cases "snd (compile_asset e self ?P)") (auto simp: object_of_def)
  from compile_asset_shape [OF comp an this] show ?thesis by auto
qed

lemma example_coherent: "coherent example_env example_packager"
  by (simp add: coherent_def example_packager_def)

theorem getSourceAsset_asset_shape_witness:
  "coherent example_env example_packager
   \<and> compilers example_packager = [(''.js'', JavaScriptCompiler)]
   \<and> analyzer example_packager = Some JavaScriptAnalyzer
   \<and> snd (getSourceAsset example_env example_packager ''/d.js'')
       = Done (Compiled 0 ''/d.js'', \<lparr>path = ''/d.js'', body = Some ''d;'', dependencies = []\<rparr>)
   \<and> path \<lparr>path = ''/d.js'', body = Some ''d;'', dependencies = []\<rparr>
       = path_resolve example_env (basedir example_packager) ''/d.js''"
proof -
  have comp: "\<forall>c \<in> snd ` set (compilers example_packager). c = JavaScriptCompiler"
    by (simp add: example_packager_def)
  have an: "analyzer example_packager = Some JavaScriptAnalyzer"
    by (simp add: example_packager_def)
  have v: "snd (getSourceAsset example_env example_packager ''/d.js'')
             = Done (Compiled 0 ''/d.js'', \<lparr>path = ''/d.js'', body = Some ''d;'', dependencies = []\<rparr>)"
    by code_simp
  have g: "getSourceAsset example_env example_packager ''/d.js''
             = (fst (getSourceAsset example_env example_packager ''/d.js''),
                Done (Compiled 0 ''/d.js'', \<lparr>path = ''/d.js'', body = Some ''d;'', dependencies = []\<rparr>))"
    using v by (metis prod.collapse)
  show ?thesis
    using getSourceAsset_asset_shape [OF example_coherent comp an g] example_coherent an v
    by (simp add: example_packager_def)
qed

subsection \<open>Closure expansion\<close>

lemma getSourceAsset_coherent:
  assumes coh: "coherent e s" and src: "object_of e s p = Done b"
  shows "\<exists>s'. getSourceAsset e s p = (s', Done b) \<and> coherent e s' \<and> same_config s s'"
proof (cases "sourceAssets s (path_resolve e (basedir s) p)")
  case None
  let ?P = "path_resolve e (basedir s) p"
  let ?s' = "s\<lparr>sourceAssets := (sourceAssets s)(?P \<mapsto> once_first (object_of e s p)),
               calls := calls s @ fst (compile_asset e s ?P)\<rparr>"
  have g: "getSourceAsset e s p = (?s', Done b)"
    using None src by (simp add: getSourceAsset_fresh)
  have cfg: "same_config s ?s'" using getSourceAsset_same_config [OF g] .
  have ca: "compile_asset e ?s' = compile_asset e s"
    using compile_asset_same_config [OF cfg] by (simp add: fun_eq_iff)
  have gen: "generation ?s' = generation s" by simp
  have "coherent e ?s'"
    unfolding coherent_def
  proof (intro allI impI)
    fix Q c assume a: "sourceAssets ?s' Q = Some c"
    show "c = once_first (map_outcome (Pair (Compiled (generation ?s') Q))
                            (snd (compile_asset e ?s' Q)))
          \<and> (\<forall>ks. c \<noteq> Pending ks)"
    proof (cases "Q = ?P")
      case True
      then have "c = once_first (object_of e s p)" using a by simp
      then show ?thesis using src ca gen True by (auto simp: object_of_def)
    next
      case False
      then have "sourceAssets s Q = Some c" using a by simp
      then show ?thesis using coh ca gen by (simp add: coherent_def)
    qed
  qed
  then show ?thesis using g cfg by blast
next
  case (Some c)
  have "c = once_first (object_of e s p)"
    using coh Some by (simp add: coherent_def object_of_def)
  then have "once_again c = Done b" using src by simp
  then have "getSourceAsset e s p = (s, Done b)" using Some by (simp add: getSourceAsset_cached)
  then show ?thesis using coh same_config_refl by blast
qed

lemma mapSeries_coherent:
  assumes "coherent e s" and "\<forall>d\<in>set ds. \<exists>b. object_of e s d = Done b"
  shows "\<exists>s'. mapSeries e s ds = (s', Series None (map Some (results (map (object_of e s) ds))))
              \<and> coherent e s' \<and> same_config s s'"
  using assms
proof (induction ds arbitrary: s)
  case Nil
  then show ?case by (simp add: same_config_refl)
next
  case (Cons d ds)
  obtain b where b: "object_of e s d = Done b" using Cons.prems(2) by auto
  obtain s1 where g: "getSourceAsset e s d = (s1, Done b)" and coh1: "coherent e s1"
    and cfg1: "same_config s s1"
    using getSourceAsset_coherent [OF Cons.prems(1) b] by blast
  have same: "object_of e s1 = object_of e s"
    using object_of_same_config [OF cfg1] by (simp add: fun_eq_iff)
  have "\<forall>d\<in>set ds. \<exists>b. object_of e s1 d = Done b" using Cons.prems(2) same by simp
  from Cons.IH [OF coh1 this]
  obtain s2 where m: "mapSeries e s1 ds = (s2, Series None (map Some (results (map (object_of e s1) ds))))"
    and coh2: "coherent e s2" and cfg2: "same_config s1 s2" by blast
  have "mapSeries e s (d # ds) = (s2, Series None (map Some (results (map (object_of e s) (d # ds)))))"
    using g m b same by simp
  then show ?case using coh2 same_config_trans [OF cfg1 cfg2] by blast
qed

lemma expand_Nil: "expandDependencies e s seen expanded [] = Some (s, seen, expanded, Done ())"
  by (subst expandDependencies.simps) simp

lemma expand_seen:
  "fst x \<in> set (map fst seen) \<Longrightarrow>
   expandDependencies e s seen expanded (Some x # rest) = expandDependencies e s seen expanded rest"
  by (subst expandDependencies.simps) simp

lemma expand_leaf:
  "fst x \<notin> set (map fst seen) \<Longrightarrow> dependencies (snd x) = [] \<Longrightarrow>
   expandDependencies e s seen expanded (Some x # rest)
     = expandDependencies e s (seen @ [x]) (expanded @ [x]) rest"
  by (subst expandDependencies.simps) simp

lemma expand_node:
  "fst x \<notin> set (map fst seen) \<Longrightarrow> dependencies (snd x) \<noteq> [] \<Longrightarrow>
   mapSeries e s (dependencies (snd x)) = (s1, Series err found) \<Longrightarrow>
   expandDependencies e s1 (seen @ [x]) expanded found = Some (s2, seen2, expanded2, Done ()) \<Longrightarrow>
   expandDependencies e s seen expanded (Some x # rest)
     = expandDependencies e s2 seen2 (expanded2 @ [x]) rest"
  by (subst expandDependencies.simps) simp

lemma dependency_first_snoc:
  assumes "dependency_first e s xs" and "set (deps_of e s a) \<subseteq> set xs"
  shows "dependency_first e s (xs @ [a])"
  unfolding dependency_first_def
proof (intro allI impI)
  fix i assume i: "i < length (xs @ [a])"
  show "set (deps_of e s ((xs @ [a]) ! i)) \<subseteq> set (take i (xs @ [a]))"
  proof (cases "i < length xs")
    case True
    then show ?thesis using assms(1) by (simp add: dependency_first_def nth_append)
  next
    case False
    then have "i = length xs" using i by simp
    then show ?thesis using assms(2) by simp
  qed
qed

lemma dependency_first_closed:
  assumes "dependency_first e s xs" and "x \<in> set xs"
  shows "set (deps_of e s x) \<subseteq> set xs"
proof -
  from assms(2) obtain i where i: "i < length xs" "xs ! i = x"
    by (auto simp: in_set_conv_nth)
  then have "set (deps_of e s x) \<subseteq> set (take i xs)"
    using assms(1) by (auto simp: dependency_first_def)
  then show ?thesis using set_take_subset [of i xs] by blast
qed

lemma results_in:
  "\<forall>d\<in>set ds. \<exists>b\<in>A. f d = Done b \<Longrightarrow> set (results (map f ds)) \<subseteq> A"
  by (induction ds) auto

lemma graph_deps:
  "dependency_graph e s0 A \<Longrightarrow> x \<in> A \<Longrightarrow> set (deps_of e s0 x) \<subseteq> A"
  unfolding deps_of_def by (rule results_in) (simp add: dependency_graph_def)

lemma ident_mem:
  assumes "inj_on fst A" "x \<in> A" "set seen \<subseteq> A"
  shows "fst x \<in> set (map fst seen) \<longleftrightarrow> x \<in> set seen"
proof
  assume "fst x \<in> set (map fst seen)"
  then obtain y where y: "y \<in> set seen" "fst y = fst x" by auto
  then have "y = x" using assms by (meson inj_onD subsetD)
  then show "x \<in> set seen" using y by simp
next
  assume "x \<in> set seen"
  then show "fst x \<in> set (map fst seen)" by simp
qed

lemma card_less_seen:
  assumes "finite A" "a \<in> A" "a \<notin> set seen" "set seen \<union> {a} \<subseteq> set seen'"
  shows "card (A - set seen') < card (A - set seen)"
proof (rule psubset_card_mono)
  show "finite (A - set seen)" using assms(1) by simp
  show "A - set seen' \<subset> A - set seen" using assms(2-4) by auto
qed

subsection \<open>The post-order\<close>

lemma first_occurrences_append:
  "first_occurrences acc (l @ m) = first_occurrences (first_occurrences acc l) m"
  by (induction l arbitrary: acc) simp_all

lemma first_occurrences_known:
  "set l \<subseteq> set acc \<Longrightarrow> first_occurrences acc l = acc"
  by (induction l) simp_all

lemma tree_walk_leaf: "deps x = [] \<Longrightarrow> tree_walk n deps x = [x]"
  by (cases n) simp_all

lemma walks_Cons:
  "walks e s0 rank (x # xs) = tree_walk (rank x) (deps_of e s0) x @ walks e s0 rank xs"
  by (simp add: walks_def)

lemma walks_Nil: "walks e s0 rank [] = []"
  by (simp add: walks_def)

text \<open>On a graph whose rank falls along the dependencies, the walk to any depth that the rank
  allows is the walk of the dependencies followed by the asset.\<close>

lemma tree_walk_enough:
  assumes graph: "dependency_graph e s0 A" and dr: "decreasing_rank e s0 A rank"
  shows "x \<in> A \<Longrightarrow> rank x \<le> n
           \<Longrightarrow> tree_walk n (deps_of e s0) x = walks e s0 rank (deps_of e s0 x) @ [x]"
proof (induction n arbitrary: x rule: less_induct)
  case (less n)
  note inA = less.prems(1)
  have below: "\<And>y. y \<in> set (deps_of e s0 x) \<Longrightarrow> y \<in> A \<and> rank y < rank x"
    using graph_deps [OF graph inA] dr inA by (auto simp: decreasing_rank_def)
  show ?case
  proof (cases n)
    case 0
    then have "deps_of e s0 x = []"
      using below less.prems(2) by (cases "deps_of e s0 x") auto
    then show ?thesis by (simp add: tree_walk_leaf walks_Nil)
  next
    case (Suc m)
    have "tree_walk m (deps_of e s0) y = tree_walk (rank y) (deps_of e s0) y"
      if y: "y \<in> set (deps_of e s0 x)" for y
    proof -
      have ry: "y \<in> A" "rank y \<le> m" using below [OF y] less.prems(2) Suc by auto
      have "tree_walk m (deps_of e s0) y = walks e s0 rank (deps_of e s0 y) @ [y]"
        using less.IH [of m y] ry Suc by simp
      moreover have "tree_walk (rank y) (deps_of e s0) y = walks e s0 rank (deps_of e s0 y) @ [y]"
        using less.IH [of "rank y" y] ry Suc by simp
      ultimately show ?thesis by simp
    qed
    then have "map (tree_walk m (deps_of e s0)) (deps_of e s0 x)
                 = map (\<lambda>y. tree_walk (rank y) (deps_of e s0) y) (deps_of e s0 x)"
      by simp
    then have "tree_walk (Suc m) (deps_of e s0) x = walks e s0 rank (deps_of e s0 x) @ [x]"
      unfolding walks_def tree_walk.simps by (rule arg_cong2 [where f = "\<lambda>a b. concat a @ b"]) simp
    then show ?thesis using Suc by simp
  qed
qed

lemma tree_walk_unfold:
  assumes "dependency_graph e s0 A" "decreasing_rank e s0 A rank" "x \<in> A"
  shows "tree_walk (rank x) (deps_of e s0) x = walks e s0 rank (deps_of e s0 x) @ [x]"
  using tree_walk_enough [OF assms(1,2,3)] by simp

lemma tree_walk_in_closed:
  assumes graph: "dependency_graph e s0 A" and dr: "decreasing_rank e s0 A rank"
      and df: "dependency_first e s0 expanded"
  shows "x \<in> A \<Longrightarrow> x \<in> set expanded
           \<Longrightarrow> set (tree_walk (rank x) (deps_of e s0) x) \<subseteq> set expanded"
proof (induction "rank x" arbitrary: x rule: less_induct)
  case less
  note inA = less.prems(1) and inE = less.prems(2)
  have below: "\<And>y. y \<in> set (deps_of e s0 x) \<Longrightarrow> y \<in> A \<and> rank y < rank x"
    using graph_deps [OF graph inA] dr inA by (auto simp: decreasing_rank_def)
  have closed: "set (deps_of e s0 x) \<subseteq> set expanded"
    using dependency_first_closed [OF df inE] .
  have "set (tree_walk (rank y) (deps_of e s0) y) \<subseteq> set expanded"
    if y: "y \<in> set (deps_of e s0 x)" for y
    using less.hyps [of y] below [OF y] closed y by auto
  then have "set (walks e s0 rank (deps_of e s0 x)) \<subseteq> set expanded"
    by (auto simp: walks_def)
  then show ?case
    using tree_walk_unfold [OF graph dr inA] inE by simp
qed

lemma below_openD:
  "below_open rank seen expanded xs \<Longrightarrow> x \<in> set xs \<Longrightarrow> g \<in> set seen \<Longrightarrow> g \<notin> set expanded
     \<Longrightarrow> rank x < rank g"
  unfolding below_open_def by blast

lemma below_open_tail:
  "below_open rank seen expanded (a # rest) \<Longrightarrow> below_open rank seen expanded rest"
  unfolding below_open_def by (meson list.set_intros(2))

lemma post_Nil:
  assumes "coherent e s"
  shows "expansion_post e s0 A rank s seen expanded []"
  unfolding expansion_post_def
  apply (rule exI [of _ s], rule exI [of _ "[]"], rule exI [of _ "[]"])
  using assms by (simp add: expand_Nil same_config_refl walks_Nil)

lemma post_seen:
  assumes graph: "dependency_graph e s0 A" and inA: "a \<in> A" and old: "a \<in> set seen"
      and cont: "expansion_post e s0 A rank s seen expanded rest"
  shows "expansion_post e s0 A rank s seen expanded (a # rest)"
proof -
  from cont obtain s' ns ex where
    r: "expandDependencies e s seen expanded (map Some rest)
          = Some (s', seen @ ns, expanded @ ex, Done ())"
    and p: "coherent e s'" "same_config s s'" "distinct (map fst ns)"
       "set (map fst ns) \<inter> set (map fst seen) = {}"
       "set ns \<subseteq> A" "set ex = set ns" "distinct ex"
       "set rest \<subseteq> set seen \<union> set ns"
    and o: "decreasing_rank e s0 A rank \<longrightarrow> below_open rank seen expanded rest
             \<longrightarrow> dependency_first e s0 expanded \<longrightarrow> set expanded \<subseteq> set seen
             \<longrightarrow> dependency_first e s0 (expanded @ ex)
                 \<and> expanded @ ex = first_occurrences expanded (walks e s0 rank rest)"
    unfolding expansion_post_def by blast
  have id: "fst a \<in> set (map fst seen)" using old by simp
  have eq: "expandDependencies e s seen expanded (map Some (a # rest))
              = Some (s', seen @ ns, expanded @ ex, Done ())"
    using r expand_seen [OF id] by simp
  have d6: "set (a # rest) \<subseteq> set seen \<union> set ns" using p(8) old by simp
  have d7: "decreasing_rank e s0 A rank \<longrightarrow> below_open rank seen expanded (a # rest)
             \<longrightarrow> dependency_first e s0 expanded \<longrightarrow> set expanded \<subseteq> set seen
             \<longrightarrow> dependency_first e s0 (expanded @ ex)
                 \<and> expanded @ ex = first_occurrences expanded (walks e s0 rank (a # rest))"
  proof (intro impI)
    assume dr: "decreasing_rank e s0 A rank"
       and bo: "below_open rank seen expanded (a # rest)"
       and df: "dependency_first e s0 expanded"
       and sub: "set expanded \<subseteq> set seen"
    have "below_open rank seen expanded rest" using bo by (rule below_open_tail)
    then have c: "dependency_first e s0 (expanded @ ex)"
                 "expanded @ ex = first_occurrences expanded (walks e s0 rank rest)"
      using o dr df sub by blast+
    have "a \<in> set expanded"
    proof (rule ccontr)
      assume "a \<notin> set expanded"
      then have "rank a < rank a" using below_openD [OF bo _ old, of a] by simp
      then show False by simp
    qed
    then have "set (tree_walk (rank a) (deps_of e s0) a) \<subseteq> set expanded"
      using tree_walk_in_closed [OF graph dr df inA] by simp
    then have "first_occurrences expanded (tree_walk (rank a) (deps_of e s0) a) = expanded"
      by (rule first_occurrences_known)
    then have "first_occurrences expanded (walks e s0 rank (a # rest))
                 = first_occurrences expanded (walks e s0 rank rest)"
      by (simp add: walks_Cons first_occurrences_append)
    then show "dependency_first e s0 (expanded @ ex)
                 \<and> expanded @ ex = first_occurrences expanded (walks e s0 rank (a # rest))"
      using c by simp
  qed
  show ?thesis
    unfolding expansion_post_def
    apply (rule exI [of _ s'], rule exI [of _ ns], rule exI [of _ ex])
    using eq p(1-7) d6 d7 by blast
qed

lemma post_leaf:
  assumes new: "a \<notin> set seen" and id: "fst a \<notin> set (map fst seen)"
      and inA: "a \<in> A" and leaf: "dependencies (snd a) = []"
      and cont: "expansion_post e s0 A rank s (seen @ [a]) (expanded @ [a]) rest"
  shows "expansion_post e s0 A rank s seen expanded (a # rest)"
proof -
  from cont obtain s' ns ex where
    r: "expandDependencies e s (seen @ [a]) (expanded @ [a]) (map Some rest)
          = Some (s', (seen @ [a]) @ ns, (expanded @ [a]) @ ex, Done ())"
    and p: "coherent e s'" "same_config s s'" "distinct (map fst ns)"
       "set (map fst ns) \<inter> set (map fst (seen @ [a])) = {}"
       "set ns \<subseteq> A" "set ex = set ns" "distinct ex"
       "set rest \<subseteq> set (seen @ [a]) \<union> set ns"
    and o: "decreasing_rank e s0 A rank \<longrightarrow> below_open rank (seen @ [a]) (expanded @ [a]) rest
             \<longrightarrow> dependency_first e s0 (expanded @ [a])
             \<longrightarrow> set (expanded @ [a]) \<subseteq> set (seen @ [a])
             \<longrightarrow> dependency_first e s0 ((expanded @ [a]) @ ex)
                 \<and> (expanded @ [a]) @ ex
                     = first_occurrences (expanded @ [a]) (walks e s0 rank rest)"
    unfolding expansion_post_def by blast
  have eq: "expandDependencies e s seen expanded (map Some (a # rest))
              = Some (s', seen @ (a # ns), expanded @ (a # ex), Done ())"
    using r expand_leaf [OF id leaf] by simp
  have ans: "a \<notin> set ns" using p(4) by auto
  have d1: "distinct (map fst (a # ns))" using p(3,4) by auto
  have d2: "set (map fst (a # ns)) \<inter> set (map fst seen) = {}" using p(4) id by auto
  have d3: "set (a # ns) \<subseteq> A" using p(5) inA by simp
  have d4: "set (a # ex) = set (a # ns)" using p(6) by simp
  have d5: "distinct (a # ex)" using p(6,7) ans by auto
  have d6: "set (a # rest) \<subseteq> set seen \<union> set (a # ns)" using p(8) by auto
  have d7: "decreasing_rank e s0 A rank \<longrightarrow> below_open rank seen expanded (a # rest)
             \<longrightarrow> dependency_first e s0 expanded \<longrightarrow> set expanded \<subseteq> set seen
             \<longrightarrow> dependency_first e s0 (expanded @ (a # ex))
                 \<and> expanded @ (a # ex)
                     = first_occurrences expanded (walks e s0 rank (a # rest))"
  proof (intro impI)
    assume dr: "decreasing_rank e s0 A rank"
       and bo: "below_open rank seen expanded (a # rest)"
       and df: "dependency_first e s0 expanded"
       and sub: "set expanded \<subseteq> set seen"
    have b1: "below_open rank (seen @ [a]) (expanded @ [a]) rest"
      unfolding below_open_def
    proof (intro allI impI)
      fix x g assume "x \<in> set rest" "g \<in> set (seen @ [a])" "g \<notin> set (expanded @ [a])"
      then show "rank x < rank g" using below_openD [OF bo, of x g] by auto
    qed
    have b2: "dependency_first e s0 (expanded @ [a])"
      using df leaf by (intro dependency_first_snoc) (simp_all add: deps_of_def)
    have b3: "set (expanded @ [a]) \<subseteq> set (seen @ [a])" using sub by auto
    have c: "dependency_first e s0 ((expanded @ [a]) @ ex)"
            "(expanded @ [a]) @ ex = first_occurrences (expanded @ [a]) (walks e s0 rank rest)"
      using o dr b1 b2 b3 by blast+
    have nex: "a \<notin> set expanded" using sub new by auto
    have "deps_of e s0 a = []" using leaf by (simp add: deps_of_def)
    then have "tree_walk (rank a) (deps_of e s0) a = [a]" by (rule tree_walk_leaf)
    then have "first_occurrences expanded (walks e s0 rank (a # rest))
                 = first_occurrences (expanded @ [a]) (walks e s0 rank rest)"
      using nex by (simp add: walks_Cons)
    then show "dependency_first e s0 (expanded @ (a # ex))
                 \<and> expanded @ (a # ex)
                     = first_occurrences expanded (walks e s0 rank (a # rest))"
      using c by simp
  qed
  show ?thesis
    unfolding expansion_post_def
    apply (rule exI [of _ s'], rule exI [of _ "a # ns"], rule exI [of _ "a # ex"])
    using eq p(1,2) d1 d2 d3 d4 d5 d6 d7 by blast
qed

lemma post_node:
  assumes graph: "dependency_graph e s0 A"
      and new: "a \<notin> set seen" and id: "fst a \<notin> set (map fst seen)"
      and inA: "a \<in> A" and node: "dependencies (snd a) \<noteq> []"
      and ms: "mapSeries e s (dependencies (snd a))
                 = (s1, Series None (map Some (deps_of e s0 a)))"
      and cfg1: "same_config s s1"
      and inner: "expansion_post e s0 A rank s1 (seen @ [a]) expanded (deps_of e s0 a)"
      and cont: "\<And>s2 ns1 ex1. coherent e s2 \<Longrightarrow> same_config s1 s2 \<Longrightarrow> set ns1 \<subseteq> A \<Longrightarrow>
                   expansion_post e s0 A rank s2 ((seen @ [a]) @ ns1) ((expanded @ ex1) @ [a]) rest"
  shows "expansion_post e s0 A rank s seen expanded (a # rest)"
proof -
  let ?bs = "deps_of e s0 a"
  from inner obtain s2 ns1 ex1 where
    r1: "expandDependencies e s1 (seen @ [a]) expanded (map Some ?bs)
          = Some (s2, (seen @ [a]) @ ns1, expanded @ ex1, Done ())"
    and p1: "coherent e s2" "same_config s1 s2" "distinct (map fst ns1)"
       "set (map fst ns1) \<inter> set (map fst (seen @ [a])) = {}"
       "set ns1 \<subseteq> A" "set ex1 = set ns1" "distinct ex1"
       "set ?bs \<subseteq> set (seen @ [a]) \<union> set ns1"
    and o1: "decreasing_rank e s0 A rank \<longrightarrow> below_open rank (seen @ [a]) expanded ?bs
             \<longrightarrow> dependency_first e s0 expanded \<longrightarrow> set expanded \<subseteq> set (seen @ [a])
             \<longrightarrow> dependency_first e s0 (expanded @ ex1)
                 \<and> expanded @ ex1 = first_occurrences expanded (walks e s0 rank ?bs)"
    unfolding expansion_post_def by blast
  from cont [OF p1(1,2,5)] obtain s3 ns2 ex2 where
    r2: "expandDependencies e s2 ((seen @ [a]) @ ns1) ((expanded @ ex1) @ [a]) (map Some rest)
          = Some (s3, ((seen @ [a]) @ ns1) @ ns2, ((expanded @ ex1) @ [a]) @ ex2, Done ())"
    and p2: "coherent e s3" "same_config s2 s3" "distinct (map fst ns2)"
       "set (map fst ns2) \<inter> set (map fst ((seen @ [a]) @ ns1)) = {}"
       "set ns2 \<subseteq> A" "set ex2 = set ns2" "distinct ex2"
       "set rest \<subseteq> set ((seen @ [a]) @ ns1) \<union> set ns2"
    and o2: "decreasing_rank e s0 A rank
             \<longrightarrow> below_open rank ((seen @ [a]) @ ns1) ((expanded @ ex1) @ [a]) rest
             \<longrightarrow> dependency_first e s0 ((expanded @ ex1) @ [a])
             \<longrightarrow> set ((expanded @ ex1) @ [a]) \<subseteq> set ((seen @ [a]) @ ns1)
             \<longrightarrow> dependency_first e s0 (((expanded @ ex1) @ [a]) @ ex2)
                 \<and> ((expanded @ ex1) @ [a]) @ ex2
                     = first_occurrences ((expanded @ ex1) @ [a]) (walks e s0 rank rest)"
    unfolding expansion_post_def by blast
  let ?ns = "a # ns1 @ ns2" and ?ex = "ex1 @ a # ex2"
  have eq: "expandDependencies e s seen expanded (map Some (a # rest))
              = Some (s3, seen @ ?ns, expanded @ ?ex, Done ())"
    using expand_node [OF id node ms r1] r2 by simp
  have cfg: "same_config s s3"
    using cfg1 p1(2) p2(2) by (blast intro: same_config_trans)
  have an1: "a \<notin> set ns1" using p1(4) by auto
  have an2: "a \<notin> set ns2" using p2(4) by auto
  have n12: "set ns1 \<inter> set ns2 = {}" using p2(4) by auto
  have d1: "distinct (map fst ?ns)" using p1(3,4) p2(3,4) by auto
  have d2: "set (map fst ?ns) \<inter> set (map fst seen) = {}" using p1(4) p2(4) id by auto
  have d3: "set ?ns \<subseteq> A" using p1(5) p2(5) inA by simp
  have d4: "set ?ex = set ?ns" using p1(6) p2(6) by auto
  have d5: "distinct ?ex" using p1(6,7) p2(6,7) an1 an2 n12 by auto
  have d6: "set (a # rest) \<subseteq> set seen \<union> set ?ns" using p2(8) by auto
  have d7: "decreasing_rank e s0 A rank \<longrightarrow> below_open rank seen expanded (a # rest)
             \<longrightarrow> dependency_first e s0 expanded \<longrightarrow> set expanded \<subseteq> set seen
             \<longrightarrow> dependency_first e s0 (expanded @ ?ex)
                 \<and> expanded @ ?ex = first_occurrences expanded (walks e s0 rank (a # rest))"
  proof (intro impI)
    assume dr: "decreasing_rank e s0 A rank"
       and bo: "below_open rank seen expanded (a # rest)"
       and df: "dependency_first e s0 expanded"
       and sub: "set expanded \<subseteq> set seen"
    have lt: "\<And>b. b \<in> set ?bs \<Longrightarrow> rank b < rank a"
      using dr inA by (simp add: decreasing_rank_def)
    have up: "\<And>g. g \<in> set seen \<Longrightarrow> g \<notin> set expanded \<Longrightarrow> rank a < rank g"
      using below_openD [OF bo, of a] by simp
    have "below_open rank (seen @ [a]) expanded ?bs"
      unfolding below_open_def
    proof (intro allI impI)
      fix x g assume x: "x \<in> set ?bs" and g: "g \<in> set (seen @ [a])"
        and ge: "g \<notin> set expanded"
      have xa: "rank x < rank a" using x lt by auto
      show "rank x < rank g"
      proof (cases "g = a")
        case True
        then show ?thesis using xa by simp
      next
        case False
        then have "rank a < rank g" using g ge up by simp
        then show ?thesis using xa by simp
      qed
    qed
    moreover have "set expanded \<subseteq> set (seen @ [a])" using sub by auto
    ultimately have c1: "dependency_first e s0 (expanded @ ex1)"
                        "expanded @ ex1 = first_occurrences expanded (walks e s0 rank ?bs)"
      using o1 dr df by blast+
    have subd: "set ?bs \<subseteq> set (expanded @ ex1)"
    proof
      fix b assume b: "b \<in> set ?bs"
      then have "b \<in> set (seen @ [a]) \<union> set ns1" using p1(8) by auto
      moreover have "b \<noteq> a" using lt [OF b] by auto
      moreover have "b \<in> set seen \<Longrightarrow> b \<in> set expanded"
        using up [of b] lt [OF b] by auto
      ultimately show "b \<in> set (expanded @ ex1)" using p1(6) by auto
    qed
    have df2: "dependency_first e s0 ((expanded @ ex1) @ [a])"
      using c1(1) subd by (rule dependency_first_snoc)
    have b1: "below_open rank ((seen @ [a]) @ ns1) ((expanded @ ex1) @ [a]) rest"
      unfolding below_open_def
    proof (intro allI impI)
      fix x g assume "x \<in> set rest" "g \<in> set ((seen @ [a]) @ ns1)"
        "g \<notin> set ((expanded @ ex1) @ [a])"
      then show "rank x < rank g" using below_openD [OF bo, of x g] p1(6) by auto
    qed
    have b3: "set ((expanded @ ex1) @ [a]) \<subseteq> set ((seen @ [a]) @ ns1)"
      using sub p1(6) by auto
    have c2: "dependency_first e s0 (((expanded @ ex1) @ [a]) @ ex2)"
             "((expanded @ ex1) @ [a]) @ ex2
                = first_occurrences ((expanded @ ex1) @ [a]) (walks e s0 rank rest)"
      using o2 dr b1 df2 b3 by blast+
    have nex: "a \<notin> set (expanded @ ex1)" using sub new an1 p1(6) by auto
    have "tree_walk (rank a) (deps_of e s0) a = walks e s0 rank ?bs @ [a]"
      using tree_walk_unfold [OF graph dr inA] .
    then have "first_occurrences expanded (tree_walk (rank a) (deps_of e s0) a)
                 = first_occurrences (expanded @ ex1) [a]"
      using c1(2) by (simp only: first_occurrences_append)
    also have "\<dots> = (expanded @ ex1) @ [a]" using nex by simp
    finally have "first_occurrences expanded (walks e s0 rank (a # rest))
                    = first_occurrences ((expanded @ ex1) @ [a]) (walks e s0 rank rest)"
      by (simp only: walks_Cons first_occurrences_append)
    then show "dependency_first e s0 (expanded @ ?ex)
                 \<and> expanded @ ?ex = first_occurrences expanded (walks e s0 rank (a # rest))"
      using c2 by simp
  qed
  show ?thesis
    unfolding expansion_post_def
    apply (rule exI [of _ s3], rule exI [of _ ?ns], rule exI [of _ ?ex])
    using eq p2(1) cfg d1 d2 d3 d4 d5 d6 d7 by blast
qed

lemma expansion_main:
  assumes fin: "finite A" and graph: "dependency_graph e s0 A"
  shows "coherent e s \<Longrightarrow> same_config s0 s \<Longrightarrow> set xs \<subseteq> A \<Longrightarrow> set seen \<subseteq> A
           \<Longrightarrow> expansion_post e s0 A rank s seen expanded xs"
proof (induction "card (A - set seen)" arbitrary: seen s expanded xs rule: less_induct)
  case less
  note outer = less.hyps
  have inj: "inj_on fst A" using graph by (simp add: dependency_graph_def)
  from less.prems show ?case
  proof (induction xs arbitrary: s expanded)
    case Nil
    then show ?case by (simp add: post_Nil)
  next
    case (Cons a rest)
    note coh = Cons.prems(1) and cfg = Cons.prems(2) and seenA = Cons.prems(4)
    from Cons.prems(3) have inA: "a \<in> A" and rest: "set rest \<subseteq> A" by auto
    show ?case
    proof (cases "a \<in> set seen")
      case True
      have "expansion_post e s0 A rank s seen expanded rest"
        using Cons.IH [OF coh cfg rest seenA] .
      then show ?thesis using graph inA True by (intro post_seen)
    next
      case False
      note new = this
      have id: "fst a \<notin> set (map fst seen)"
        using ident_mem [OF inj inA seenA] new by simp
      have less1: "\<And>seen'. set seen \<union> {a} \<subseteq> set seen' \<Longrightarrow> card (A - set seen') < card (A - set seen)"
        using card_less_seen [OF fin inA new] .
      have seenA1: "set (seen @ [a]) \<subseteq> A" using seenA inA by simp
      show ?thesis
      proof (cases "dependencies (snd a) = []")
        case True
        have "expansion_post e s0 A rank s (seen @ [a]) (expanded @ [a]) rest"
          by (rule outer [OF _ coh cfg rest seenA1]) (rule less1, simp)
        then show ?thesis using new id inA True by (intro post_leaf)
      next
        case False
        have src: "object_of e s = object_of e s0"
          using object_of_same_config [OF cfg] by (simp add: fun_eq_iff)
        have all: "\<forall>d\<in>set (dependencies (snd a)). \<exists>b\<in>A. object_of e s0 d = Done b"
          using graph inA by (simp add: dependency_graph_def)
        then have "\<forall>d\<in>set (dependencies (snd a)). \<exists>b. object_of e s d = Done b"
          using src by auto
        from mapSeries_coherent [OF coh this]
        obtain s1 where ms: "mapSeries e s (dependencies (snd a))
                               = (s1, Series None (map Some (deps_of e s0 a)))"
          and coh1: "coherent e s1" and c1: "same_config s s1"
          using src by (auto simp: deps_of_def)
        have cfg1: "same_config s0 s1"
          using cfg c1 by (rule same_config_trans)
        have bs: "set (deps_of e s0 a) \<subseteq> A"
          using graph_deps [OF graph inA] .
        have inner: "expansion_post e s0 A rank s1 (seen @ [a]) expanded (deps_of e s0 a)"
          by (rule outer [OF _ coh1 cfg1 bs seenA1]) (rule less1, simp)
        have cont: "expansion_post e s0 A rank s2 ((seen @ [a]) @ ns1) ((expanded @ ex1) @ [a]) rest"
          if "coherent e s2" "same_config s1 s2" "set ns1 \<subseteq> A" for s2 ns1 ex1
        proof -
          have c02: "same_config s0 s2"
            using cfg1 that(2) by (rule same_config_trans)
          have sA: "set ((seen @ [a]) @ ns1) \<subseteq> A" using seenA1 that(3) by simp
          show ?thesis
            by (rule outer [OF _ that(1) c02 rest sA]) (rule less1, auto)
        qed
        show ?thesis
          using graph new id inA False ms c1 inner cont by (rule post_node)
      qed
    qed
  qed
qed

lemma example_graph_diamond: "dependency_graph example_env example_packager (set example_diamond)"
  by code_simp

lemma example_rank_diamond:
  "decreasing_rank example_env example_packager (set example_diamond)
     (\<lambda>x. length (dependencies (snd x)))"
  by code_simp

lemma example_graph_cycles: "dependency_graph example_env example_packager (set example_cycles)"
  by code_simp

lemma example_walk_diamond:
  "first_occurrences []
     (walks example_env example_packager (\<lambda>x. length (dependencies (snd x))) [hd example_diamond])
   = [example_object ''/d.js'' ''d;'' [],
      example_object ''/b.js'' ''b;'' [''/d.js''],
      example_object ''/c.js'' ''c;'' [''/d.js''],
      example_object ''/a.js'' ''a;'' [''/b.js'', ''/c.js'']]"
  by code_simp

text \<open>
  The test of \<open>seen\<close> is by identity. A root that is a copy of the object the cache holds
  for \<open>/b.js\<close>, and not that object, is expanded beside it: the sequence holds both.
\<close>

lemma expandDependencies_by_identity:
  "map_option (\<lambda>(s, seen, ex, out). (map fst ex, out))
     (expandDependencies example_env example_packager [] []
        [Some (Given 1, snd (example_object ''/b.js'' ''b;'' [''/d.js''])),
         Some (hd example_diamond)])
   = Some ([Compiled 0 ''/d.js'', Given 1, Compiled 0 ''/b.js'', Compiled 0 ''/c.js'',
            Compiled 0 ''/a.js''], Done ())"
  by code_simp

text \<open>
  Claim C2. On an acyclic dependency graph (a finite set \<open>A\<close> of asset objects, no two with
  one identity, in which every dependency compiles to a member, with a rank that falls
  along every dependency), \<open>_expandDependencies\<close> started on roots from \<open>A\<close> with empty
  \<open>seen\<close> and \<open>expanded\<close> returns through \<open>done\<close> with no error, and the expanded sequence
  is the post-order: the walks of the dependency trees below the roots, each asset after
  the walks of its dependencies in their order, with every asset listed where it first
  occurs. No object occurs twice; the sequence holds every root, holds only assets of
  \<open>A\<close>, and holds every dependency of each member before that member; where the identity
  of every object is its path in the present cache, no path occurs twice. For the diamond
  of the example project the sequence is d, b, c, a.
\<close>

theorem expandDependencies_post_order:
  fixes rank :: "obj \<Rightarrow> nat"
  assumes fin: "finite A"
      and graph: "dependency_graph e self A"
      and coh: "coherent e self"
      and roots: "set roots \<subseteq> A"
      and acyclic: "decreasing_rank e self A rank"
  shows "\<exists>s' seen' ex.
           expandDependencies e self [] [] (map Some roots) = Some (s', seen', ex, Done ())
           \<and> ex = first_occurrences [] (walks e self rank roots)
           \<and> distinct (map fst ex) \<and> set roots \<subseteq> set ex \<and> set ex \<subseteq> A
           \<and> dependency_first e self ex
           \<and> ((\<forall>x\<in>A. fst x = Compiled (generation self) (path (snd x)))
                \<longrightarrow> distinct (map (\<lambda>x. path (snd x)) ex))"
proof -
  have "expansion_post e self A rank self [] [] roots"
    using roots by (intro expansion_main [OF fin graph coh same_config_refl]) auto
  then obtain s' ns ex where
    r: "expandDependencies e self [] [] (map Some roots) = Some (s', ns, ex, Done ())"
    and p: "distinct (map fst ns)" "distinct ex" "set ns \<subseteq> A" "set ex = set ns"
       "set roots \<subseteq> set ns"
    and o: "decreasing_rank e self A rank \<longrightarrow> below_open rank [] [] roots
             \<longrightarrow> dependency_first e self [] \<longrightarrow> set ([] :: obj list) \<subseteq> set []
             \<longrightarrow> dependency_first e self ex
                 \<and> ex = first_occurrences [] (walks e self rank roots)"
    unfolding expansion_post_def by auto
  have "below_open rank [] [] roots" by (simp add: below_open_def)
  moreover have "dependency_first e self []" by (simp add: dependency_first_def)
  ultimately have c: "dependency_first e self ex"
                     "ex = first_occurrences [] (walks e self rank roots)"
    using o acyclic by blast+
  have inj: "inj_on fst (set ex)"
    using graph p(3,4) by (auto simp: dependency_graph_def intro: inj_on_subset)
  then have d: "distinct (map fst ex)" using p(2) by (simp add: distinct_map)
  have paths: "distinct (map (\<lambda>x. path (snd x)) ex)"
    if named: "\<forall>x\<in>A. fst x = Compiled (generation self) (path (snd x))"
  proof -
    have "inj_on (\<lambda>x. path (snd x)) (set ex)"
    proof (rule inj_onI)
      fix x y assume x: "x \<in> set ex" and y: "y \<in> set ex"
        and eq: "path (snd x) = path (snd y)"
      have "x \<in> A" "y \<in> A" using x y p(3,4) by auto
      then have "fst x = Compiled (generation self) (path (snd x))"
                "fst y = Compiled (generation self) (path (snd y))"
        using named by blast+
      then have "fst x = fst y" using eq by simp
      then show "x = y" using inj x y by (meson inj_onD)
    qed
    then show ?thesis using p(2) by (simp add: distinct_map)
  qed
  show ?thesis
    using r c d p(3,4,5) paths by auto
qed

theorem expandDependencies_post_order_witness:
  "finite (set example_diamond)
   \<and> dependency_graph example_env example_packager (set example_diamond)
   \<and> coherent example_env example_packager
   \<and> decreasing_rank example_env example_packager (set example_diamond)
       (\<lambda>x. length (dependencies (snd x)))
   \<and> (\<exists>s' seen'.
         expandDependencies example_env example_packager [] [] (map Some [hd example_diamond])
           = Some (s', seen',
                   [example_object ''/d.js'' ''d;'' [],
                    example_object ''/b.js'' ''b;'' [''/d.js''],
                    example_object ''/c.js'' ''c;'' [''/d.js''],
                    example_object ''/a.js'' ''a;'' [''/b.js'', ''/c.js'']],
                   Done ()))"
proof -
  have roots: "set [hd example_diamond] \<subseteq> set example_diamond"
    by (simp add: example_diamond_def)
  have fin: "finite (set example_diamond)" by simp
  show ?thesis
    using expandDependencies_post_order
            [OF fin example_graph_diamond example_coherent roots example_rank_diamond]
          example_walk_diamond example_graph_diamond example_coherent example_rank_diamond
    by auto
qed

text \<open>
  Claim C3. On any dependency graph, with or without cycles (a finite set \<open>A\<close> of asset
  objects, no two with one identity, in which every dependency compiles to a member),
  \<open>_expandDependencies\<close> started on roots from \<open>A\<close> returns, through \<open>done\<close> and with no
  error; each asset is marked seen once and expanded once. The example has a file that
  requires itself and two files that require each other.
\<close>

theorem expandDependencies_terminates:
  assumes fin: "finite A"
      and graph: "dependency_graph e self A"
      and coh: "coherent e self"
      and roots: "set roots \<subseteq> A"
  shows "\<exists>s' seen' ex.
           expandDependencies e self [] [] (map Some roots) = Some (s', seen', ex, Done ())
           \<and> distinct seen' \<and> distinct ex \<and> set ex = set seen'
           \<and> set roots \<subseteq> set seen' \<and> set seen' \<subseteq> A
           \<and> distinct (map fst seen')"
proof -
  have "expansion_post e self A (\<lambda>a. 0) self [] [] roots"
    using roots by (intro expansion_main [OF fin graph coh same_config_refl]) auto
  then obtain s' ns ex where
    r: "expandDependencies e self [] [] (map Some roots) = Some (s', ns, ex, Done ())"
    and p: "distinct (map fst ns)" "distinct ex" "set ns \<subseteq> A" "set ex = set ns"
       "set roots \<subseteq> set ns"
    unfolding expansion_post_def by auto
  have "distinct ns" using p(1) by (simp add: distinct_map)
  then show ?thesis using r p by auto
qed

theorem expandDependencies_terminates_witness:
  "map_option (\<lambda>(s, seen, ex, out). (map (\<lambda>x. path (snd x)) ex, out))
     (expandDependencies example_env example_packager [] [] (map Some example_cycles))
   = Some ([''/self.js'', ''/pong.js'', ''/ping.js''], Done ())
   \<and> (\<exists>s' seen' ex.
         expandDependencies example_env example_packager [] [] (map Some example_cycles)
           = Some (s', seen', ex, Done ())
         \<and> distinct seen' \<and> distinct ex \<and> set ex = set seen'
         \<and> set example_cycles \<subseteq> set seen' \<and> set seen' \<subseteq> set example_cycles)"
proof -
  have v: "map_option (\<lambda>(s, seen, ex, out). (map (\<lambda>x. path (snd x)) ex, out))
     (expandDependencies example_env example_packager [] [] (map Some example_cycles))
   = Some ([''/self.js'', ''/pong.js'', ''/ping.js''], Done ())"
    by code_simp
  have fin: "finite (set example_cycles)" by simp
  show ?thesis
    using v expandDependencies_terminates
            [OF fin example_graph_cycles example_coherent subset_refl]
    by blast
qed

subsection \<open>The build\<close>

text \<open>
  Claim C4. \<open>build\<close> should deliver a configuration error to its callback when
  \<open>main\<close> is not set, when \<open>linker\<close> is not set, or when \<open>minify\<close> is true and \<open>minifier\<close> is
  not set. In the example project with each of the three settings in turn, the check
  computes the error, and what \<open>build\<close> does is throw a \<open>TypeError\<close>: nothing reaches the
  callback.
\<close>

theorem build_configuration_error_dropped:
  "build_err (example_packager\<lparr>main := MainUnset\<rparr>)
     = Some (Error ''Main module not specified for /out.js'')
   \<and> map_option snd (build example_env (example_packager\<lparr>main := MainUnset\<rparr>))
     = Some (Thrown (TypeError ''Cannot read property map of undefined''))
   \<and> build_err (example_packager\<lparr>linker := None\<rparr>)
     = Some (Error ''Linker not found for /out.js'')
   \<and> map_option snd (build example_env (example_packager\<lparr>linker := None\<rparr>))
     = Some (Thrown (TypeError ''linker is not a function''))
   \<and> build_err (example_packager\<lparr>minify := True\<rparr>)
     = Some (Error ''Minifier not found for /out.js'')
   \<and> map_option snd (build example_env (example_packager\<lparr>minify := True\<rparr>))
     = Some (Thrown (TypeError ''minifier is not a function''))"
  by code_simp

text \<open>
  Claim C5. \<open>build\<close> should call each postprocessor on the composite asset, in order,
  after minification. In the example project with one postprocessor that replaces the
  body by \<open>header\<close>, the build delivers the body as the linker left it.
\<close>

theorem build_postprocessors_not_invoked:
  "map_option snd
     (build example_env
        (example_packager\<lparr>postprocessors := Some [\<lambda>a. Done (a\<lparr>cbody := Some ''header''\<rparr>)]\<rparr>))
   = Some (Done \<lparr>cpath = Some ''/out.js'',
                 assets = [example_object ''/a.js'' ''a;'' [''/b.js'', ''/c.js'']],
                 cbody = Some ''d;\<newline>b;\<newline>c;\<newline>a;'', encoding = None\<rparr>)"
  by code_simp

text \<open>
  A build that has delivered a result is not run again: the next call delivers what the
  first one did and leaves the packager as it is.
\<close>

lemma build_again:
  assumes "build_memo self = None" and "build e self = Some (s1, out)"
      and "out = Done a \<or> out = Failed err v"
  shows "build e' s1 = Some (s1, out)"
proof -
  from assms(1,2) obtain s0 where "build_fn e self = Some (s0, out)"
    and s1: "s1 = s0\<lparr>build_memo := Some (once_first out)\<rparr>"
    by (auto simp: build_def bind_eq_Some_conv)
  have "build_memo s1 = Some (once_first out)" using s1 by simp
  then have "build e' s1 = Some (s1, once_again (once_first out))" by (simp add: build_def)
  then show ?thesis using assms(3) by auto
qed

text \<open>
  Claim C7. Two calls of \<open>build\<close> with no \<open>invalidate\<close> between them should call the
  linker, the minifier and the postprocessors once in total. In the example project with
  minification on, a minifier that replaces the body by \<open>min\<close> and a postprocessor that
  replaces it by \<open>header\<close>, the two builds call the linker once and the minifier once, and
  the second delivers the composite asset of the first; the postprocessor is not called
  in either: the body delivered is that of the minifier.
\<close>

theorem build_twice_postprocessors_not_invoked:
  "map_option (\<lambda>(s, out). (calls s, out))
     (Option.bind
        (build example_env
           (example_packager\<lparr>minify := True,
              minifier := Some (\<lambda>a. Done (a\<lparr>cbody := Some ''min''\<rparr>)),
              postprocessors := Some [\<lambda>a. Done (a\<lparr>cbody := Some ''header''\<rparr>)]\<rparr>))
        (\<lambda>(s1, out1). build example_env s1))
   = Some ([CompileCall ''/a.js'', AnalyzeCall ''/a.js'', LinkCall,
            CompileCall ''/b.js'', AnalyzeCall ''/b.js'',
            CompileCall ''/c.js'', AnalyzeCall ''/c.js'',
            CompileCall ''/d.js'', AnalyzeCall ''/d.js'', MinifyCall],
           Done \<lparr>cpath = Some ''/out.js'',
                 assets = [example_object ''/a.js'' ''a;'' [''/b.js'', ''/c.js'']],
                 cbody = Some ''min'', encoding = None\<rparr>)
   \<and> map_option snd
       (build example_env
          (example_packager\<lparr>minify := True,
             minifier := Some (\<lambda>a. Done (a\<lparr>cbody := Some ''min''\<rparr>)),
             postprocessors := Some [\<lambda>a. Done (a\<lparr>cbody := Some ''header''\<rparr>)]\<rparr>))
     = Some (Done \<lparr>cpath = Some ''/out.js'',
                   assets = [example_object ''/a.js'' ''a;'' [''/b.js'', ''/c.js'']],
                   cbody = Some ''min'', encoding = None\<rparr>)"
  by code_simp

text \<open>No call of \<open>_expandDependencies\<close> passes an error to \<open>done\<close>, whatever its arguments.\<close>

lemma expandDependencies_outcome:
  assumes "expandDependencies e self seen expanded deps = Some y"
  shows "snd (snd (snd y)) \<noteq> Failed err v"
  using assms
proof (induction rule: expandDependencies.raw_induct [rotated, consumes 1])
  case (1 expand e self seen expanded deps y)
  show ?case
  proof (cases deps)
    case Nil
    then show ?thesis using 1(2) by auto
  next
    case (Cons d rest)
    show ?thesis
    proof (cases d)
      case None
      then show ?thesis using 1(2) Cons by auto
    next
      case (Some a)
      show ?thesis
      proof (cases "fst a \<in> set (map fst seen) \<or> dependencies (snd a) = []")
        case True
        then have "expand e self seen expanded rest = Some y
                   \<or> expand e self (seen @ [a]) (expanded @ [a]) rest = Some y"
          using 1(2) Cons Some by (auto split: if_splits)
        then show ?thesis using 1(1) by blast
      next
        case False
        obtain s1 r where m: "mapSeries e self (dependencies (snd a)) = (s1, r)"
          by (cases "mapSeries e self (dependencies (snd a))")
        show ?thesis
        proof (cases r)
          case (Series err1 found)
          from 1(2) Cons Some False m Series
          obtain s2 seen2 expanded2 out2 where
            inner: "expand e s1 (seen @ [a]) expanded found = Some (s2, seen2, expanded2, out2)"
            and rest: "(case out2 of
                      Done u \<Rightarrow> expand e s2 seen2 (expanded2 @ [a]) rest
                    | Failed err2 v2 \<Rightarrow> expand e s2 seen2 (expanded2 @ [a]) rest
                    | Thrown err2 \<Rightarrow> Some (s2, seen2, expanded2, Thrown err2)
                    | NoCallback \<Rightarrow> Some (s2, seen2, expanded2, NoCallback))
                   = Some y"
            by (auto simp: bind_eq_Some_conv)
          show ?thesis
          proof (cases "\<exists>err2. out2 = Thrown err2 \<or> out2 = NoCallback")
            case True
            then show ?thesis using rest by auto
          next
            case False
            then have "expand e s2 seen2 (expanded2 @ [a]) rest = Some y"
              using rest by (cases out2) auto
            then show ?thesis by (rule 1(1))
          qed
        next
          case (SeriesThrown err1)
          then show ?thesis using 1(2) Cons Some False m by auto
        next
          case SeriesNoCallback
          then show ?thesis using 1(2) Cons Some False m by auto
        qed
      qed
    qed
  qed
qed

lemma expandDependencies_never_fails:
  "expandDependencies e self seen expanded deps \<noteq> Some (s', seen', expanded', Failed err v)"
  using expandDependencies_outcome
          [of e self seen expanded deps "(s', seen', expanded', Failed err v)" err v]
  by auto

text \<open>
  Claim C6. An error from resolving or compiling a dependency should abort the expansion
  and reach the caller of the linker. In the example project built from \<open>/broken.js\<close>,
  whose dependency \<open>/missing.js\<close> cannot be read, the read error is not delivered: the
  expansion goes on with \<open>undefined\<close> in place of the asset and throws a \<open>TypeError\<close>.
  Built from \<open>/whole.js\<close>, whose dependency \<open>/half.js\<close> requires a module that does not
  resolve, the error is not delivered either: the expansion goes on with the asset as the
  compiler left it, and the build delivers a bundle. By \<open>expandDependencies_never_fails\<close> no
  input makes the expansion deliver an error.
\<close>

theorem expandDependencies_error_not_propagated:
  "object_of example_env example_packager ''/missing.js''
     = Failed (Error ''ENOENT /missing.js'') None
   \<and> map_option snd (build example_env (example_packager\<lparr>main := MainString ''/broken.js''\<rparr>))
       = Some (Thrown (TypeError ''Cannot read property dependencies of undefined''))
   \<and> snd (getSourceAsset example_env example_packager ''/half.js'')
       = Failed (Error ''Cannot find module nowhere'')
           (Some (Compiled 0 ''/half.js'',
                  \<lparr>path = ''/half.js'', body = Some ''half;'', dependencies = []\<rparr>))
   \<and> map_option snd (build example_env (example_packager\<lparr>main := MainString ''/whole.js''\<rparr>))
       = Some (Done \<lparr>cpath = Some ''/out.js'',
                     assets = [example_object ''/whole.js'' ''whole;'' [''/half.js'']],
                     cbody = Some ''half;\<newline>whole;'', encoding = None\<rparr>)"
  by code_simp

subsection \<open>Writing\<close>

text \<open>
  What \<open>write\<close> does once the output path is resolved, for each way the build can end:
  the file is written when the build delivers a composite asset, and in no other case; the
  callback is called when the build delivers an error, and when the write has ended.
\<close>

lemma write_file_result:
  assumes cb: "is_function done1"
      and args: "(if \<not> truthy callback \<and> is_function outputPath then (JNull, outputPath)
                  else (outputPath, callback)) = (outputPath1, done1)"
      and tgt: "path_resolve1 e (if \<not> truthy outputPath1
                                 then (case ppath self of None \<Rightarrow> JUndefined | Some p \<Rightarrow> JString p)
                                 else outputPath1)
                  = Inr target"
      and b: "build e self = Some (s1, out)"
  shows "write_file e self outputPath callback =
           Some (case out of
                   Done a \<Rightarrow>
                     s1\<lparr>calls := calls s1 @
                          [WriteCall target (cbody a)
                             (case encoding a of None \<Rightarrow> ''utf8''
                              | Some en \<Rightarrow> if en = [] then ''utf8'' else en)]\<rparr>
                 | Failed err v \<Rightarrow> s1
                 | Thrown err \<Rightarrow> s1
                 | NoCallback \<Rightarrow> s1,
                 done1,
                 case out of
                   Done a \<Rightarrow>
                     (case writeFile e target (cbody a)
                             (case encoding a of None \<Rightarrow> ''utf8''
                              | Some en \<Rightarrow> if en = [] then ''utf8'' else en) of
                        None \<Rightarrow> Done ()
                      | Some err \<Rightarrow> Failed err None)
                 | Failed err v \<Rightarrow> Failed err None
                 | Thrown err \<Rightarrow> Thrown err
                 | NoCallback \<Rightarrow> NoCallback)"
proof -
  have "write_file e self outputPath callback =
          (case path_resolve1 e (if \<not> truthy outputPath1
                                 then (case ppath self of None \<Rightarrow> JUndefined | Some p \<Rightarrow> JString p)
                                 else outputPath1) of
             Inl err \<Rightarrow> Some (self, done1, Thrown err)
           | Inr target \<Rightarrow>
               Option.bind (build e self)
                 (\<lambda>(s1, out).
                    case out of
                      Failed err v \<Rightarrow>
                        Some (s1, done1,
                              if is_function done1 then Failed err None
                              else Thrown (TypeError ''done is not a function''))
                    | Thrown err \<Rightarrow> Some (s1, done1, Thrown err)
                    | NoCallback \<Rightarrow> Some (s1, done1, NoCallback)
                    | Done a \<Rightarrow>
                        (let enc = (case encoding a of
                                      None \<Rightarrow> ''utf8''
                                    | Some en \<Rightarrow> if en = [] then ''utf8'' else en)
                         in Some (s1\<lparr>calls := calls s1 @ [WriteCall target (cbody a) enc]\<rparr>, done1,
                                  if \<not> is_function done1 then NoCallback
                                  else (case writeFile e target (cbody a) enc of
                                          None \<Rightarrow> Done ()
                                        | Some err \<Rightarrow> Failed err None)))))"
    unfolding write_file_def args Let_def by simp
  then show ?thesis
    using cb tgt b by (cases out) (simp_all add: Let_def)
qed

text \<open>
  Claim C8. When the build fails, the callback of \<open>write\<close> should receive the build
  error. In the example project built from \<open>/broken.js\<close>, whose dependency cannot be read,
  and in the example project with \<open>main\<close> not set, the build fails by throwing a
  \<open>TypeError\<close>: \<open>write\<close> writes no file, and its callback is not called, with the read
  error, the configuration error, or anything else.
\<close>

theorem write_file_build_error_not_delivered:
  "object_of example_env example_packager ''/missing.js''
     = Failed (Error ''ENOENT /missing.js'') None
   \<and> map_option (\<lambda>(s, cb, r). (calls s, cb, r))
       (write_file example_env (example_packager\<lparr>main := MainString ''/broken.js''\<rparr>)
          (JString ''/out.js'') (JFunction 1))
     = Some ([CompileCall ''/broken.js'', AnalyzeCall ''/broken.js'', LinkCall,
              CompileCall ''/missing.js''],
             JFunction 1,
             Thrown (TypeError ''Cannot read property dependencies of undefined''))
   \<and> build_err (example_packager\<lparr>main := MainUnset\<rparr>)
     = Some (Error ''Main module not specified for /out.js'')
   \<and> map_option (\<lambda>(s, cb, r). (calls s, cb, r))
       (write_file example_env (example_packager\<lparr>main := MainUnset\<rparr>)
          (JString ''/out.js'') (JFunction 1))
     = Some ([], JFunction 1, Thrown (TypeError ''Cannot read property map of undefined''))"
  by code_simp

text \<open>
  Claim C10. \<open>write\<close> called with a function as its only argument makes that function
  the callback and writes to the packager's own path: once the build has ended, the
  value of \<open>done\<close> is the function, the file written (when the build delivers a composite
  asset) is the one at the resolved \<open>this.path\<close>, and what the function receives is the
  build error or the result of the write. \<open>write(undefined, done)\<close> with the same
  function does the same.
\<close>

theorem write_single_function_argument:
  assumes own: "path_resolve1 e (case ppath self of None \<Rightarrow> JUndefined | Some p \<Rightarrow> JString p)
                  = Inr target"
      and b: "build e self = Some (s1, out)"
  shows "write_file e self (JFunction k) JUndefined =
           Some (case out of
                   Done a \<Rightarrow>
                     s1\<lparr>calls := calls s1 @
                          [WriteCall target (cbody a)
                             (case encoding a of None \<Rightarrow> ''utf8''
                              | Some en \<Rightarrow> if en = [] then ''utf8'' else en)]\<rparr>
                 | Failed err v \<Rightarrow> s1
                 | Thrown err \<Rightarrow> s1
                 | NoCallback \<Rightarrow> s1,
                 JFunction k,
                 case out of
                   Done a \<Rightarrow>
                     (case writeFile e target (cbody a)
                             (case encoding a of None \<Rightarrow> ''utf8''
                              | Some en \<Rightarrow> if en = [] then ''utf8'' else en) of
                        None \<Rightarrow> Done ()
                      | Some err \<Rightarrow> Failed err None)
                 | Failed err v \<Rightarrow> Failed err None
                 | Thrown err \<Rightarrow> Thrown err
                 | NoCallback \<Rightarrow> NoCallback)
         \<and> write_file e self (JFunction k) JUndefined = write_file e self JUndefined (JFunction k)"
proof -
  have cb: "is_function (JFunction k)" by simp
  have args: "(if \<not> truthy JUndefined \<and> is_function (JFunction k) then (JNull, JFunction k)
               else (JFunction k, JUndefined)) = (JNull, JFunction k)"
    by simp
  have tgt: "path_resolve1 e (if \<not> truthy JNull
                              then (case ppath self of None \<Rightarrow> JUndefined | Some p \<Rightarrow> JString p)
                              else JNull)
               = Inr target"
    using own by simp
  have "write_file e self (JFunction k) JUndefined = write_file e self JUndefined (JFunction k)"
    by (simp add: write_file_def)
  then show ?thesis
    using write_file_result [OF cb args tgt b] by simp
qed

theorem write_single_function_argument_witness:
  "path_resolve1 example_env (JString ''/out.js'') = Inr ''/out.js''
   \<and> map_option snd (build example_env example_packager)
       = Some (Done \<lparr>cpath = Some ''/out.js'',
                     assets = [example_object ''/a.js'' ''a;'' [''/b.js'', ''/c.js'']],
                     cbody = Some ''d;\<newline>b;\<newline>c;\<newline>a;'', encoding = None\<rparr>)
   \<and> map_option (\<lambda>(s, cb, r). (drop 9 (calls s), cb, r))
       (write_file example_env example_packager (JFunction 1) JUndefined)
     = Some ([WriteCall ''/out.js'' (Some ''d;\<newline>b;\<newline>c;\<newline>a;'') ''utf8''],
             JFunction 1, Done ())"
proof -
  let ?a = "\<lparr>cpath = Some ''/out.js'',
             assets = [example_object ''/a.js'' ''a;'' [''/b.js'', ''/c.js'']],
             cbody = Some ''d;\<newline>b;\<newline>c;\<newline>a;'', encoding = None\<rparr>"
  have own: "path_resolve1 example_env
               (case ppath example_packager of None \<Rightarrow> JUndefined | Some p \<Rightarrow> JString p)
             = Inr ''/out.js''"
    by (simp add: example_env_def example_packager_def)
  have r: "path_resolve1 example_env (JString ''/out.js'') = Inr ''/out.js''"
    by (simp add: example_env_def)
  have o: "map_option snd (build example_env example_packager) = Some (Done ?a)"
    by code_simp
  have c: "map_option (\<lambda>x. length (calls (fst x))) (build example_env example_packager) = Some 9"
    by code_simp
  obtain s1 where b: "build example_env example_packager = Some (s1, Done ?a)"
    using o by (cases "build example_env example_packager") auto
  have len: "length (calls s1) = 9" using c b by simp
  have wf: "writeFile example_env ''/out.js'' (Some ''d;\<newline>b;\<newline>c;\<newline>a;'') ''utf8'' = None"
    by (simp add: example_env_def)
  show ?thesis
    using write_single_function_argument [OF own b, of 1] r o len wf
    by simp
qed

end
